theory Spec2Isabelle
  imports Main "HOL-Library.Sublist"
begin

section \<open>JavaScript values\<close>

text \<open>
  The handler of \<^verbatim>\<open>football_data_api_function.js\<close> reads parsed JSON bodies and builds
  documents from them.  A value is one of the JSON shapes, or \<open>undefined\<close> (the result of
  reading a property that is not there).  JSON numbers are kept as integers: the handler
  copies and compares them and does no arithmetic on them.  An object is an association
  list read by \<open>map_of\<close>.
\<close>

datatype json =
    JUndefined
  | JNull
  | JBool bool
  | JNum int
  | JStr string
  | JArr "json list"
  | JObj "(string \<times> json) list"

text \<open>Whatever a \<^verbatim>\<open>catch (error)\<close> of the handler can receive.\<close>

datatype error =
    TypeError
  | UpstreamError string
  | StoreError string

fun nullish :: "json \<Rightarrow> bool" where
  "nullish JUndefined = True"
| "nullish JNull = True"
| "nullish _ = False"

text \<open>
  \<^verbatim>\<open>v.f\<close> on a value that is neither \<open>null\<close> nor \<open>undefined\<close>.  None of the property names
  the handler reads is defined on strings, numbers, booleans or arrays, so the read gives
  \<open>undefined\<close> there.
\<close>

fun lookup_prop :: "json \<Rightarrow> string \<Rightarrow> json" where
  "lookup_prop (JObj kvs) f = (case map_of kvs f of None \<Rightarrow> JUndefined | Some v \<Rightarrow> v)"
| "lookup_prop _ f = JUndefined"

text \<open>\<^verbatim>\<open>v.f\<close>: a TypeError on \<open>null\<close> and \<open>undefined\<close>.\<close>

definition get_prop :: "json \<Rightarrow> string \<Rightarrow> error + json" where
  "get_prop v f = (if nullish v then Inl TypeError else Inr (lookup_prop v f))"

text \<open>\<^verbatim>\<open>v?.f\<close>\<close>

definition opt_prop :: "json \<Rightarrow> string \<Rightarrow> json" where
  "opt_prop v f = (if nullish v then JUndefined else lookup_prop v f)"

text \<open>\<^verbatim>\<open>v?.[0]\<close>\<close>

fun opt_index0 :: "json \<Rightarrow> json" where
  "opt_index0 (JArr xs) = (case xs of [] \<Rightarrow> JUndefined | x # _ \<Rightarrow> x)"
| "opt_index0 (JStr cs) = (case cs of [] \<Rightarrow> JUndefined | c # _ \<Rightarrow> JStr [c])"
| "opt_index0 (JObj kvs) = (case map_of kvs ''0'' of None \<Rightarrow> JUndefined | Some v \<Rightarrow> v)"
| "opt_index0 _ = JUndefined"

text \<open>
  \<^verbatim>\<open>v?.slice(0, 10) || []\<close>, as the list of the elements that \<^verbatim>\<open>for (const x of ...)\<close> then
  visits.  \<open>null\<close> and \<open>undefined\<close> short-circuit to the empty list; an array gives its first
  ten elements; a string gives its first ten characters (the empty string is falsy and
  gives the empty list as well); any other value has no callable \<^verbatim>\<open>slice\<close>, so the call
  throws a TypeError.
\<close>

fun slice10_or_empty :: "json \<Rightarrow> error + json list" where
  "slice10_or_empty JUndefined = Inr []"
| "slice10_or_empty JNull = Inr []"
| "slice10_or_empty (JArr xs) = Inr (take 10 xs)"
| "slice10_or_empty (JStr cs) = Inr (map (\<lambda>c. JStr [c]) (take 10 cs))"
| "slice10_or_empty _ = Inl TypeError"

text \<open>\<^verbatim>\<open>v ?? null\<close>\<close>

definition or_null :: "json \<Rightarrow> json" where
  "or_null v = (if nullish v then JNull else v)"

text \<open>
  Whether a value can be interpolated into a template literal.  The conversion to a string
  throws a TypeError for an object that has a property \<^verbatim>\<open>toString\<close> of its own (a parsed
  value is never callable, and \<^verbatim>\<open>valueOf\<close> gives no primitive), and for an array with such
  an element, whose conversion joins the conversions of its elements.
\<close>

fun printable :: "json \<Rightarrow> bool" where
  "printable (JArr xs) = list_all printable xs"
| "printable (JObj kvs) = (map_of kvs ''toString'' = None)"
| "printable _ = True"

text \<open>Sequencing of evaluations that may throw.\<close>

definition on_value :: "error + 'a \<Rightarrow> ('a \<Rightarrow> error + 'b) \<Rightarrow> error + 'b" where
  "on_value r f = (case r of Inl e \<Rightarrow> Inl e | Inr a \<Rightarrow> f a)"

section \<open>Endpoints\<close>

text \<open>\<^verbatim>\<open>s.split('/')\<close>, for any separator character.\<close>

fun split :: "char \<Rightarrow> string \<Rightarrow> string list" where
  "split sep [] = [[]]"
| "split sep (c # cs) =
     (if c = sep then [] # split sep cs
      else (case split sep cs of [] \<Rightarrow> [[c]] | w # ws \<Rightarrow> (c # w) # ws))"

definition startsWith :: "string \<Rightarrow> string \<Rightarrow> bool" where
  "startsWith s p = prefix p s"

definition endsWith :: "string \<Rightarrow> string \<Rightarrow> bool" where
  "endsWith s p = suffix p s"

definition includes_str :: "string \<Rightarrow> string \<Rightarrow> bool" where
  "includes_str s p = sublist p s"

text \<open>\<^verbatim>\<open>endpoint.split('/')[2]\<close>: \<open>undefined\<close> when there are fewer than three segments.\<close>

definition compCode :: "string \<Rightarrow> json" where
  "compCode endpoint =
     (case drop 2 (split CHR ''/'' endpoint) of [] \<Rightarrow> JUndefined | c # _ \<Rightarrow> JStr c)"

datatype kind = Standing | Competition | Match

text \<open>The \<^verbatim>\<open>if\<close> / \<^verbatim>\<open>else if\<close> chain of the handler (lines 65 to 117), in its order.\<close>

definition classify :: "string \<Rightarrow> kind option" where
  "classify endpoint =
     (if startsWith endpoint ''/competitions/'' \<and> endsWith endpoint ''/standings''
      then Some Standing
      else if startsWith endpoint ''/competitions/'' \<and> \<not> includes_str endpoint ''/matches''
      then Some Competition
      else if includes_str endpoint ''/matches''
      then Some Match
      else None)"

section \<open>The document store and the invocation\<close>

datatype collection =
    COMPETITIONS_COLLECTION_ID
  | STANDINGS_COLLECTION_ID
  | MATCHES_COLLECTION_ID

datatype role = Role_any

datatype permission = Permission_read role

text \<open>
  A stored document: its identifier, its data, and the permission argument of the
  \<^verbatim>\<open>createDocument\<close> call that made it (\<open>None\<close> when the call had none).  Identifiers
  are numbered, \<^verbatim>\<open>sdk.ID.unique()\<close> handing out the next number.
\<close>

record document =
  doc_id :: nat
  doc_data :: "(string \<times> json) list"
  doc_perms :: "permission list option"

record database =
  docs :: "collection \<Rightarrow> document list"
  next_id :: nat

datatype store_call =
    ListDocuments collection string json
  | CreateDocument collection nat "(string \<times> json) list" "permission list option"

text \<open>The messages of \<^verbatim>\<open>context.log\<close>, one constructor for each template of the source.\<close>

datatype log_entry =
    Debug_invoked
  | Debug_client_initialized
  | Debug_processing_tasks nat "string list"
  | Info_max_requests
  | Debug_processing_task string
  | Debug_api_response string json
  | Debug_processing_standings nat json
  | Debug_saved_standing json json json
  | Debug_saved_competition json json
  | Debug_skipped_competition json
  | Debug_processing_matches nat json
  | Debug_saved_match json json nat
  | Debug_skipped_match json json
  | Error_failed_task string error
  | Error_unexpected string

text \<open>
  What the handler does not decide: whether the construction of the store client throws,
  what the \<open>n\<close>-th \<^verbatim>\<open>axios.get\<close> of an invocation returns for an endpoint (\<open>Inl\<close> a
  thrown error's message, \<open>Inr\<close> the body), and whether the \<open>n\<close>-th store call of an
  invocation throws.
\<close>

record env =
  init_failure :: "string option"
  upstream :: "nat \<Rightarrow> string \<Rightarrow> string + json"
  store_failure :: "nat \<Rightarrow> string option"

text \<open>
  The state of one invocation: the store, the counter \<^verbatim>\<open>requestsMade\<close>, the messages
  sent to \<^verbatim>\<open>context.log\<close>, and two histories kept for the statements below: every
  \<^verbatim>\<open>axios.get\<close> issued (with whether it returned a response) and every store call issued.
\<close>

record istate =
  store :: database
  requestsMade :: nat
  http_calls :: "(string \<times> bool) list"
  store_calls :: "store_call list"
  sink :: "log_entry list"

definition and_then ::
  "(istate \<Rightarrow> (error + 'a) \<times> istate) \<Rightarrow> ('a \<Rightarrow> istate \<Rightarrow> (error + 'b) \<times> istate)
     \<Rightarrow> istate \<Rightarrow> (error + 'b) \<times> istate" where
  "and_then m f s = (case m s of (Inl e, s') \<Rightarrow> (Inl e, s') | (Inr a, s') \<Rightarrow> f a s')"

definition eval :: "error + 'a \<Rightarrow> istate \<Rightarrow> (error + 'a) \<times> istate" where
  "eval r s = (r, s)"

definition context_log :: "log_entry \<Rightarrow> istate \<Rightarrow> istate" where
  "context_log e s = s\<lparr>sink := sink s @ [e]\<rparr>"

definition log_step :: "log_entry \<Rightarrow> istate \<Rightarrow> (error + unit) \<times> istate" where
  "log_step e s = (Inr (), context_log e s)"

text \<open>
  A \<^verbatim>\<open>context.log\<close> whose template literal interpolates the values \<open>vs\<close> of the
  payload: the message is built first, and building it throws when one of them cannot be
  converted to a string.  (The other interpolated values of the source are the endpoint,
  the code, lengths and identifiers: strings, numbers or \<open>undefined\<close>.)
\<close>

definition log_template ::
  "json list \<Rightarrow> log_entry \<Rightarrow> istate \<Rightarrow> (error + unit) \<times> istate" where
  "log_template vs e s = (if list_all printable vs then log_step e s else (Inl TypeError, s))"

definition axios_get :: "env \<Rightarrow> string \<Rightarrow> istate \<Rightarrow> (error + json) \<times> istate" where
  "axios_get env endpoint s =
     (case upstream env (length (http_calls s)) endpoint of
        Inl msg \<Rightarrow> (Inl (UpstreamError msg), s\<lparr>http_calls := http_calls s @ [(endpoint, False)]\<rparr>)
      | Inr data \<Rightarrow> (Inr data, s\<lparr>http_calls := http_calls s @ [(endpoint, True)]\<rparr>))"

definition increment_requestsMade :: "istate \<Rightarrow> (error + unit) \<times> istate" where
  "increment_requestsMade s = (Inr (), s\<lparr>requestsMade := Suc (requestsMade s)\<rparr>)"

definition ID_unique :: "istate \<Rightarrow> (error + nat) \<times> istate" where
  "ID_unique s =
     (Inr (next_id (store s)), s\<lparr>store := (store s)\<lparr>next_id := Suc (next_id (store s))\<rparr>\<rparr>)"

text \<open>\<^verbatim>\<open>databases.listDocuments(DATABASE_ID, c, [Query.equal(field, v)])\<close>, the documents found.\<close>

definition listDocuments ::
  "env \<Rightarrow> collection \<Rightarrow> string \<Rightarrow> json \<Rightarrow> istate \<Rightarrow> (error + document list) \<times> istate" where
  "listDocuments env c field v s =
     (let s' = s\<lparr>store_calls := store_calls s @ [ListDocuments c field v]\<rparr>
      in case store_failure env (length (store_calls s)) of
           Some msg \<Rightarrow> (Inl (StoreError msg), s')
         | None \<Rightarrow> (Inr (filter (\<lambda>d. map_of (doc_data d) field = Some v) (docs (store s) c)), s'))"

text \<open>\<^verbatim>\<open>databases.createDocument(DATABASE_ID, c, i, body, perms)\<close>\<close>

definition createDocument ::
  "env \<Rightarrow> collection \<Rightarrow> nat \<Rightarrow> (string \<times> json) list \<Rightarrow> permission list option
     \<Rightarrow> istate \<Rightarrow> (error + unit) \<times> istate" where
  "createDocument env c i body perms s =
     (let s' = s\<lparr>store_calls := store_calls s @ [CreateDocument c i body perms]\<rparr>
      in case store_failure env (length (store_calls s)) of
           Some msg \<Rightarrow> (Inl (StoreError msg), s')
         | None \<Rightarrow>
             (Inr (),
              s'\<lparr>store := (store s)\<lparr>docs := (docs (store s))
                   (c := docs (store s) c @ [\<lparr>doc_id = i, doc_data = body, doc_perms = perms\<rparr>])\<rparr>\<rparr>))"

text \<open>
  Line 61: \<^verbatim>\<open>JSON.stringify(data, null, 2).substring(0, 500)\<close>.  \<^verbatim>\<open>JSON.stringify(undefined)\<close>
  is \<open>undefined\<close>, and \<^verbatim>\<open>substring\<close> of it throws.
\<close>

definition log_api_response :: "string \<Rightarrow> json \<Rightarrow> istate \<Rightarrow> (error + unit) \<times> istate" where
  "log_api_response endpoint data s =
     (if data = JUndefined then (Inl TypeError, s)
      else log_step (Debug_api_response endpoint data) s)"

section \<open>Standings (lines 69 to 90)\<close>

definition standing_data :: "json \<Rightarrow> json \<Rightarrow> error + (string \<times> json) list" where
  "standing_data code standing =
     on_value (get_prop standing ''position'') (\<lambda>position.
     on_value (get_prop standing ''team'') (\<lambda>team.
     on_value (get_prop team ''name'') (\<lambda>team_name.
     on_value (get_prop standing ''points'') (\<lambda>points.
     on_value (get_prop standing ''playedGames'') (\<lambda>playedGames.
       Inr [(''competition_code'', code),
            (''position'', position),
            (''team_name'', team_name),
            (''points'', points),
            (''played_games'', playedGames)])))))"

definition save_standing :: "env \<Rightarrow> json \<Rightarrow> json \<Rightarrow> istate \<Rightarrow> (error + unit) \<times> istate" where
  "save_standing env code standing =
     and_then ID_unique (\<lambda>i.
     and_then (eval (standing_data code standing)) (\<lambda>body.
     and_then (createDocument env STANDINGS_COLLECTION_ID i body None) (\<lambda>_.
       log_template
         [lookup_prop standing ''position'', lookup_prop (lookup_prop standing ''team'') ''name'']
         (Debug_saved_standing code
           (lookup_prop standing ''position'')
           (lookup_prop (lookup_prop standing ''team'') ''name'')))))"

fun save_standings :: "env \<Rightarrow> json \<Rightarrow> json list \<Rightarrow> istate \<Rightarrow> (error + unit) \<times> istate" where
  "save_standings env code [] = eval (Inr ())"
| "save_standings env code (standing # rest) =
     and_then (save_standing env code standing) (\<lambda>_. save_standings env code rest)"

text \<open>\<^verbatim>\<open>data.standings?.[0]?.table?.slice(0, 10) || []\<close>\<close>

definition standings_of :: "json \<Rightarrow> error + json list" where
  "standings_of data =
     on_value (get_prop data ''standings'') (\<lambda>st.
       slice10_or_empty (opt_prop (opt_index0 st) ''table''))"

definition process_standings :: "env \<Rightarrow> string \<Rightarrow> json \<Rightarrow> istate \<Rightarrow> (error + unit) \<times> istate" where
  "process_standings env endpoint data =
     and_then (eval (standings_of data)) (\<lambda>standings.
     and_then (log_step (Debug_processing_standings (length standings) (compCode endpoint))) (\<lambda>_.
       save_standings env (compCode endpoint) standings))"

section \<open>Competitions (lines 95 to 116)\<close>

definition competition_data :: "json \<Rightarrow> json \<Rightarrow> error + (string \<times> json) list" where
  "competition_data code data =
     on_value (get_prop data ''name'') (\<lambda>name.
     on_value (get_prop data ''area'') (\<lambda>area.
     on_value (get_prop area ''name'') (\<lambda>area_name.
       Inr [(''code'', code), (''name'', name), (''area_name'', area_name)])))"

definition process_competition :: "env \<Rightarrow> string \<Rightarrow> json \<Rightarrow> istate \<Rightarrow> (error + unit) \<times> istate" where
  "process_competition env endpoint data =
     and_then (listDocuments env COMPETITIONS_COLLECTION_ID ''code'' (compCode endpoint)) (\<lambda>existingComps.
       if length existingComps = 0 then
         and_then ID_unique (\<lambda>i.
         and_then (eval (competition_data (compCode endpoint) data)) (\<lambda>body.
         and_then (createDocument env COMPETITIONS_COLLECTION_ID i body
                     (Some [Permission_read Role_any])) (\<lambda>_.
           log_template [lookup_prop data ''name'']
             (Debug_saved_competition (compCode endpoint) (lookup_prop data ''name'')))))
       else log_step (Debug_skipped_competition (compCode endpoint)))"

section \<open>Matches (lines 118 to 158)\<close>

definition match_data :: "nat \<Rightarrow> json \<Rightarrow> json \<Rightarrow> error + (string \<times> json) list" where
  "match_data documentId code m =
     on_value (get_prop m ''id'') (\<lambda>match_id.
     on_value (get_prop m ''homeTeam'') (\<lambda>homeTeam.
     on_value (get_prop homeTeam ''name'') (\<lambda>home_team_name.
     on_value (get_prop m ''awayTeam'') (\<lambda>awayTeam.
     on_value (get_prop awayTeam ''name'') (\<lambda>away_team_name.
     on_value (get_prop m ''score'') (\<lambda>score.
     on_value (get_prop score ''fullTime'') (\<lambda>fullTime.
     on_value (get_prop fullTime ''home'') (\<lambda>home.
     on_value (get_prop m ''score'') (\<lambda>score'.
     on_value (get_prop score' ''fullTime'') (\<lambda>fullTime'.
     on_value (get_prop fullTime' ''away'') (\<lambda>away.
     on_value (get_prop m ''status'') (\<lambda>status.
     on_value (get_prop m ''utcDate'') (\<lambda>utcDate.
       Inr [(''$id'', JNum (int documentId)),
            (''match_id'', match_id),
            (''competition_code'', code),
            (''home_team_name'', home_team_name),
            (''away_team_name'', away_team_name),
            (''score_home'', or_null home),
            (''score_away'', or_null away),
            (''status'', status),
            (''utc_date'', utcDate)])))))))))))))"

definition process_match :: "env \<Rightarrow> json \<Rightarrow> json \<Rightarrow> istate \<Rightarrow> (error + unit) \<times> istate" where
  "process_match env code m =
     and_then (eval (get_prop m ''status'')) (\<lambda>status.
       if status = JStr ''FINISHED'' then
         and_then (listDocuments env MATCHES_COLLECTION_ID ''match_id'' (lookup_prop m ''id''))
           (\<lambda>existingMatches.
             if length existingMatches = 0 then
               and_then ID_unique (\<lambda>documentId.
               and_then (eval (match_data documentId code m)) (\<lambda>body.
               and_then (createDocument env MATCHES_COLLECTION_ID documentId body
                           (Some [Permission_read Role_any])) (\<lambda>_.
                 log_template [lookup_prop m ''id'']
                   (Debug_saved_match (lookup_prop m ''id'') code documentId))))
             else log_template [lookup_prop m ''id'']
                    (Debug_skipped_match (lookup_prop m ''id'') code))
       else eval (Inr ()))"

fun process_matches :: "env \<Rightarrow> json \<Rightarrow> json list \<Rightarrow> istate \<Rightarrow> (error + unit) \<times> istate" where
  "process_matches env code [] = eval (Inr ())"
| "process_matches env code (m # rest) =
     and_then (process_match env code m) (\<lambda>_. process_matches env code rest)"

text \<open>\<^verbatim>\<open>data.matches?.slice(0, 10) || []\<close>\<close>

definition matches_of :: "json \<Rightarrow> error + json list" where
  "matches_of data = on_value (get_prop data ''matches'') slice10_or_empty"

definition process_match_list :: "env \<Rightarrow> string \<Rightarrow> json \<Rightarrow> istate \<Rightarrow> (error + unit) \<times> istate" where
  "process_match_list env endpoint data =
     and_then (eval (matches_of data)) (\<lambda>ms.
     and_then (log_step (Debug_processing_matches (length ms) (compCode endpoint))) (\<lambda>_.
       process_matches env (compCode endpoint) ms))"

section \<open>The handler\<close>

text \<open>The body of the inner \<^verbatim>\<open>try\<close> (lines 58 to 159).\<close>

definition try_body :: "env \<Rightarrow> string \<Rightarrow> istate \<Rightarrow> (error + unit) \<times> istate" where
  "try_body env endpoint =
     and_then (axios_get env endpoint) (\<lambda>data.
     and_then increment_requestsMade (\<lambda>_.
     and_then (log_api_response endpoint data) (\<lambda>_.
       case classify endpoint of
         Some Standing \<Rightarrow> process_standings env endpoint data
       | Some Competition \<Rightarrow> process_competition env endpoint data
       | Some Match \<Rightarrow> process_match_list env endpoint data
       | None \<Rightarrow> eval (Inr ()))))"

record task =
  endpoint :: string
  priority :: nat

text \<open>One task: the \<^verbatim>\<open>try\<close> with its \<^verbatim>\<open>catch\<close> (lines 54 to 162).\<close>

definition run_task :: "env \<Rightarrow> task \<Rightarrow> istate \<Rightarrow> istate" where
  "run_task env t s =
     (case try_body env (endpoint t) (context_log (Debug_processing_task (endpoint t)) s) of
        (Inl e, s') \<Rightarrow> context_log (Error_failed_task (endpoint t) e) s'
      | (Inr _, s') \<Rightarrow> s')"

text \<open>The loop over the tasks (lines 48 to 163), for any budget and any task list.\<close>

fun run_tasks :: "env \<Rightarrow> nat \<Rightarrow> task list \<Rightarrow> istate \<Rightarrow> istate" where
  "run_tasks env maxRequests [] s = s"
| "run_tasks env maxRequests (t # rest) s =
     (if requestsMade s \<ge> maxRequests then context_log Info_max_requests s
      else run_tasks env maxRequests rest (run_task env t s))"

definition initial :: "database \<Rightarrow> istate" where
  "initial d = \<lparr>store = d, requestsMade = 0, http_calls = [], store_calls = [], sink = []\<rparr>"

text \<open>
  The handler for any budget and task list.  It returns the JSON given to
  \<^verbatim>\<open>context.res.json\<close> and the final state.  \<^verbatim>\<open>logs\<close> is the array of line 6.
\<close>

definition handler_with :: "env \<Rightarrow> nat \<Rightarrow> task list \<Rightarrow> database \<Rightarrow> json \<times> istate" where
  "handler_with env maxRequests ts d =
     (let logs = [];
          s0 = context_log Debug_invoked (initial d)
      in case init_failure env of
           Some msg \<Rightarrow>
             (JObj [(''status'', JStr ''error''), (''message'', JStr msg), (''logs'', JArr logs)],
              context_log (Error_unexpected msg) s0)
         | None \<Rightarrow>
             (let s1 = context_log Debug_client_initialized s0;
                  s2 = context_log (Debug_processing_tasks (length ts) (map endpoint ts)) s1;
                  s3 = run_tasks env maxRequests ts s2
              in (JObj [(''status'', JStr ''success''), (''logs'', JArr logs),
                        (''requests_made'', JNum (int (requestsMade s3)))],
                  s3)))"

definition tasks :: "task list" where
  "tasks =
     [\<lparr>endpoint = ''/competitions/PL'', priority = 1\<rparr>,
      \<lparr>endpoint = ''/competitions/PL/standings'', priority = 2\<rparr>,
      \<lparr>endpoint = ''/competitions/PL/matches?status=FINISHED'', priority = 3\<rparr>,
      \<lparr>endpoint = ''/competitions/CL'', priority = 1\<rparr>,
      \<lparr>endpoint = ''/competitions/CL/standings'', priority = 2\<rparr>,
      \<lparr>endpoint = ''/competitions/CL/matches?status=FINISHED'', priority = 3\<rparr>,
      \<lparr>endpoint = ''/competitions/EC'', priority = 1\<rparr>,
      \<lparr>endpoint = ''/competitions/EC/standings'', priority = 2\<rparr>,
      \<lparr>endpoint = ''/competitions/EC/matches?status=FINISHED'', priority = 3\<rparr>]"

definition maxRequests_default :: nat where
  "maxRequests_default = 10"

text \<open>The handler as the source has it: budget 10 and the nine tasks.\<close>

definition handler :: "env \<Rightarrow> database \<Rightarrow> json \<times> istate" where
  "handler env d = handler_with env maxRequests_default tasks d"

definition empty_database :: database where
  "empty_database = \<lparr>docs = (\<lambda>_. []), next_id = 0\<rparr>"

section \<open>Auxiliary notions for the statements\<close>

text \<open>A step that issues no upstream call and leaves the counter alone.\<close>

definition same_requests :: "istate \<Rightarrow> istate \<Rightarrow> bool" where
  "same_requests s s' \<longleftrightarrow> requestsMade s' = requestsMade s \<and> http_calls s' = http_calls s"

text \<open>An upstream API that fails every call, and a list of eleven tasks.\<close>

definition upstream_down :: env where
  "upstream_down =
     \<lparr>init_failure = None, upstream = (\<lambda>n e. Inl ''Network Error''), store_failure = (\<lambda>n. None)\<rparr>"

definition eleven_tasks :: "task list" where
  "eleven_tasks = tasks @
     [\<lparr>endpoint = ''/competitions/SA'', priority = 1\<rparr>,
      \<lparr>endpoint = ''/competitions/SA/standings'', priority = 2\<rparr>]"

text \<open>A state whose counter has reached the default budget.\<close>

definition spent :: istate where
  "spent = (initial empty_database)\<lparr>requestsMade := 10\<rparr>"

text \<open>
  The permission argument of the \<^verbatim>\<open>createDocument\<close> calls of the source, by collection
  (lines 75, 102 and 132), and the store calls that are written that way.
\<close>

fun perms_for :: "collection \<Rightarrow> permission list option" where
  "perms_for COMPETITIONS_COLLECTION_ID = Some [Permission_read Role_any]"
| "perms_for STANDINGS_COLLECTION_ID = None"
| "perms_for MATCHES_COLLECTION_ID = Some [Permission_read Role_any]"

fun as_written :: "store_call \<Rightarrow> bool" where
  "as_written (ListDocuments c f v) = True"
| "as_written (CreateDocument c i b p) = (p = perms_for c)"

text \<open>
  A step that keeps every document, appends documents created as the source writes them,
  and issues only such store calls.
\<close>

definition only_creates :: "istate \<Rightarrow> istate \<Rightarrow> bool" where
  "only_creates s s' \<longleftrightarrow>
     (\<forall>c. \<exists>new. docs (store s') c = docs (store s) c @ new
        \<and> (\<forall>x\<in>set new. doc_perms x = perms_for c))
     \<and> (\<exists>calls. store_calls s' = store_calls s @ calls \<and> (\<forall>k\<in>set calls. as_written k))"

text \<open>A store none of whose calls fails.\<close>

definition reliable :: "env \<Rightarrow> bool" where
  "reliable env \<longleftrightarrow> (\<forall>n. store_failure env n = None)"

text \<open>
  A row of a table from which the record literal of lines 79 to 85 can be built, and the
  fields of that literal.
\<close>

definition complete_standing :: "json \<Rightarrow> bool" where
  "complete_standing r \<longleftrightarrow> \<not> nullish r \<and> \<not> nullish (lookup_prop r ''team'')"

definition standing_body :: "json \<Rightarrow> json \<Rightarrow> (string \<times> json) list" where
  "standing_body code r =
     [(''competition_code'', code),
      (''position'', lookup_prop r ''position''),
      (''team_name'', lookup_prop (lookup_prop r ''team'') ''name''),
      (''points'', lookup_prop r ''points''),
      (''played_games'', lookup_prop r ''playedGames'')]"

text \<open>
  An entry from which the record literal of lines 136 to 146 can be built, and the fields
  of that literal.
\<close>

definition complete_match :: "json \<Rightarrow> bool" where
  "complete_match m \<longleftrightarrow>
     \<not> nullish (lookup_prop m ''homeTeam'') \<and> \<not> nullish (lookup_prop m ''awayTeam'')
     \<and> \<not> nullish (lookup_prop (lookup_prop m ''score'') ''fullTime'')"

definition match_body :: "nat \<Rightarrow> json \<Rightarrow> json \<Rightarrow> (string \<times> json) list" where
  "match_body documentId code m =
     [(''$id'', JNum (int documentId)),
      (''match_id'', lookup_prop m ''id''),
      (''competition_code'', code),
      (''home_team_name'', lookup_prop (lookup_prop m ''homeTeam'') ''name''),
      (''away_team_name'', lookup_prop (lookup_prop m ''awayTeam'') ''name''),
      (''score_home'', or_null (lookup_prop (lookup_prop (lookup_prop m ''score'') ''fullTime'') ''home'')),
      (''score_away'', or_null (lookup_prop (lookup_prop (lookup_prop m ''score'') ''fullTime'') ''away'')),
      (''status'', lookup_prop m ''status''),
      (''utc_date'', lookup_prop m ''utcDate'')]"

text \<open>The collection \<open>c\<close> holds a document whose field \<open>f\<close> is \<open>v\<close>.\<close>

definition has_doc :: "database \<Rightarrow> collection \<Rightarrow> string \<Rightarrow> json \<Rightarrow> bool" where
  "has_doc d c f v \<longleftrightarrow> (\<exists>x\<in>set (docs d c). map_of (doc_data x) f = Some v)"

text \<open>
  Store calls that are existence checks, and call sequences in which every call is an
  existence check on \<^verbatim>\<open>match_id\<close> or the creation, right after such a check, of a match
  document with the \<^verbatim>\<open>match_id\<close> that was checked.
\<close>

fun is_list_call :: "store_call \<Rightarrow> bool" where
  "is_list_call (ListDocuments c f v) = True"
| "is_list_call (CreateDocument c i b p) = False"

fun checked_inserts :: "store_call list \<Rightarrow> bool" where
  "checked_inserts [] = True"
| "checked_inserts [ListDocuments c f v] = (c = MATCHES_COLLECTION_ID \<and> f = ''match_id'')"
| "checked_inserts (ListDocuments c f v # CreateDocument c' i b p # rest) =
     (c = MATCHES_COLLECTION_ID \<and> f = ''match_id'' \<and> c' = MATCHES_COLLECTION_ID
      \<and> map_of b ''match_id'' = Some v \<and> checked_inserts rest)"
| "checked_inserts (ListDocuments c f v # ListDocuments c' f' v' # rest) =
     (c = MATCHES_COLLECTION_ID \<and> f = ''match_id''
      \<and> checked_inserts (ListDocuments c' f' v' # rest))"
| "checked_inserts (CreateDocument c i b p # rest) = False"

text \<open>
  The documents that the creations of a call sequence add when the store does not fail;
  and the call sequence that checks and then creates each entry of a list, the first
  creation taking the identifier \<open>n\<close>.
\<close>

fun created :: "store_call list \<Rightarrow> document list" where
  "created [] = []"
| "created (ListDocuments c f v # rest) = created rest"
| "created (CreateDocument c i b p # rest) =
     \<lparr>doc_id = i, doc_data = b, doc_perms = p\<rparr> # created rest"

fun check_and_create :: "nat \<Rightarrow> json \<Rightarrow> json list \<Rightarrow> store_call list" where
  "check_and_create n code [] = []"
| "check_and_create n code (m # rest) =
     ListDocuments MATCHES_COLLECTION_ID ''match_id'' (lookup_prop m ''id'')
     # CreateDocument MATCHES_COLLECTION_ID n (match_body n code m)
         (Some [Permission_read Role_any])
     # check_and_create (Suc n) code rest"

text \<open>
  Sample responses: the competition of the specification, a table of twelve rows, and
  eleven matches of which the first and the third are finished.  Every other endpoint
  answers 404.
\<close>

definition table_row :: "int \<Rightarrow> json" where
  "table_row k = JObj [(''position'', JNum k), (''team'', JObj [(''name'', JStr ''Club'')]),
     (''points'', JNum (40 - k)), (''playedGames'', JNum 20)]"

definition match_entry :: "int \<Rightarrow> string \<Rightarrow> json" where
  "match_entry k st = JObj [(''id'', JNum k), (''status'', JStr st),
     (''homeTeam'', JObj [(''name'', JStr ''Home'')]), (''awayTeam'', JObj [(''name'', JStr ''Away'')]),
     (''score'', JObj [(''fullTime'', JObj [(''home'', JNum 2), (''away'', JNull)])]),
     (''utcDate'', JStr ''2024-05-19T15:00:00Z'')]"

definition sample_upstream :: "nat \<Rightarrow> string \<Rightarrow> string + json" where
  "sample_upstream n e =
     (if e = ''/competitions/PL''
      then Inr (JObj [(''name'', JStr ''Premier League''), (''area'', JObj [(''name'', JStr ''England'')])])
      else if e = ''/competitions/PL/standings''
      then Inr (JObj [(''standings'', JArr [JObj [(''table'', JArr (map table_row [1,2,3,4,5,6,7,8,9,10,11,12]))]])])
      else if e = ''/competitions/PL/matches?status=FINISHED''
      then Inr (JObj [(''matches'', JArr (match_entry 1 ''FINISHED'' # match_entry 2 ''SCHEDULED''
             # match_entry 3 ''FINISHED'' # map (\<lambda>k. match_entry k ''SCHEDULED'') [4,5,6,7,8,9,10,11]))])
      else Inl ''Request failed with status code 404'')"

definition sample_env :: env where
  "sample_env = \<lparr>init_failure = None, upstream = sample_upstream, store_failure = (\<lambda>n. None)\<rparr>"

text \<open>The first of the nine tasks.\<close>

definition competition_task :: task where
  "competition_task = \<lparr>endpoint = ''/competitions/PL'', priority = 1\<rparr>"

text \<open>The state in which the loop over the tasks starts.\<close>

definition started :: "task list \<Rightarrow> database \<Rightarrow> istate" where
  "started ts d =
     context_log (Debug_processing_tasks (length ts) (map endpoint ts))
       (context_log Debug_client_initialized (context_log Debug_invoked (initial d)))"

text \<open>
  In the run of the loop from \<open>s\<close>, every task of Match kind whose fetch returns a
  response completes without error.
\<close>

fun match_tasks_complete :: "env \<Rightarrow> nat \<Rightarrow> task list \<Rightarrow> istate \<Rightarrow> bool" where
  "match_tasks_complete env maxRequests [] s = True"
| "match_tasks_complete env maxRequests (t # rest) s =
     (if requestsMade s \<ge> maxRequests then True
      else (classify (endpoint t) = Some Match
              \<and> \<not> isl (upstream env (length (http_calls s)) (endpoint t))
            \<longrightarrow> fst (try_body env (endpoint t)
                  (context_log (Debug_processing_task (endpoint t)) s)) = Inr ())
           \<and> match_tasks_complete env maxRequests rest (run_task env t s))"

text \<open>
  A stretch of a first run takes the store from \<open>a\<close> to \<open>a'\<close>, and the same stretch of a
  second run from \<open>b\<close> to \<open>b'\<close>: the second run leaves the competitions and the matches
  alone and appends standings with the same data as the first.
\<close>

definition second_pass :: "database \<Rightarrow> database \<Rightarrow> database \<Rightarrow> database \<Rightarrow> bool" where
  "second_pass a a' b b' \<longleftrightarrow>
     docs b' COMPETITIONS_COLLECTION_ID = docs b COMPETITIONS_COLLECTION_ID
     \<and> docs b' MATCHES_COLLECTION_ID = docs b MATCHES_COLLECTION_ID
     \<and> (\<exists>n1 n2. docs a' STANDINGS_COLLECTION_ID = docs a STANDINGS_COLLECTION_ID @ n1
           \<and> docs b' STANDINGS_COLLECTION_ID = docs b STANDINGS_COLLECTION_ID @ n2
           \<and> map doc_data n1 = map doc_data n2)"

text \<open>
  Responses in which the PL matches begin with a finished entry without teams that has
  the identifier of the only CL match.
\<close>

definition incomplete_entry :: json where
  "incomplete_entry = JObj [(''id'', JNum 1), (''status'', JStr ''FINISHED'')]"

definition stale_upstream :: "nat \<Rightarrow> string \<Rightarrow> string + json" where
  "stale_upstream n e =
     (if e = ''/competitions/PL/matches?status=FINISHED''
      then Inr (JObj [(''matches'', JArr [incomplete_entry, match_entry 2 ''FINISHED''])])
      else if e = ''/competitions/CL/matches?status=FINISHED''
      then Inr (JObj [(''matches'', JArr [match_entry 1 ''FINISHED''])])
      else Inl ''Request failed with status code 404'')"

definition stale_env :: env where
  "stale_env = \<lparr>init_failure = None, upstream = stale_upstream, store_failure = (\<lambda>n. None)\<rparr>"

text \<open>
  A row whose position and team name can be interpolated into the message of line 88, and
  an entry of the matches on which the body of the loop of lines 123 to 158 does not throw
  when the store answers: it is an object and, when it is finished, the record literal can
  be built from it and its identifier can be interpolated into the messages of lines 150
  and 154.
\<close>

definition loggable_standing :: "json \<Rightarrow> bool" where
  "loggable_standing r \<longleftrightarrow>
     printable (lookup_prop r ''position'')
     \<and> printable (lookup_prop (lookup_prop r ''team'') ''name'')"

definition processable :: "json \<Rightarrow> bool" where
  "processable m \<longleftrightarrow>
     \<not> nullish m
     \<and> (lookup_prop m ''status'' = JStr ''FINISHED'' \<longrightarrow>
          complete_match m \<and> printable (lookup_prop m ''id''))"

text \<open>
  Responses that make tasks abort: a table of three rows whose second row has no team, a
  body \<open>null\<close> for the CL standings, and three finished matches of which the first has
  no teams.
\<close>

definition teamless_table :: "json list" where
  "teamless_table =
     [table_row 1,
      JObj [(''position'', JNum 2), (''team'', JNull), (''points'', JNum 38),
            (''playedGames'', JNum 20)],
      table_row 3]"

definition unfinished_business :: "json list" where
  "unfinished_business =
     [JObj [(''id'', JNum 1), (''status'', JStr ''FINISHED'')],
      match_entry 2 ''FINISHED'',
      match_entry 3 ''FINISHED'']"

definition aborting_upstream :: "nat \<Rightarrow> string \<Rightarrow> string + json" where
  "aborting_upstream n e =
     (if e = ''/competitions/PL/standings''
      then Inr (JObj [(''standings'', JArr [JObj [(''table'', JArr teamless_table)]])])
      else if e = ''/competitions/CL/standings''
      then Inr JNull
      else if e = ''/competitions/PL/matches?status=FINISHED''
      then Inr (JObj [(''matches'', JArr unfinished_business)])
      else Inl ''Request failed with status code 404'')"

definition aborting_env :: env where
  "aborting_env =
     \<lparr>init_failure = None, upstream = aborting_upstream, store_failure = (\<lambda>n. None)\<rparr>"

section \<open>Sequencing\<close>

lemma and_then_eval [simp]:
  "and_then (eval (Inr a)) f s = f a s"
  "and_then (eval (Inl e)) f s = (Inl e, s)"
  by (simp_all add: and_then_def eval_def)

lemma and_then_log_step [simp]: "and_then (log_step e) f s = f () (context_log e s)"
  by (simp add: and_then_def log_step_def)

lemma and_then_snd:
  assumes m: "\<And>s. R s (snd (m s))"
    and f: "\<And>a s. R s (snd (f a s))"
    and tr: "\<And>a b c. R a b \<Longrightarrow> R b c \<Longrightarrow> R a c"
  shows "R s (snd (and_then m f s))"
proof (cases "m s")
  case (Pair r s')
  with m [of s] have 1: "R s s'" by simp
  show ?thesis
  proof (cases r)
    case (Inl e)
    with Pair 1 show ?thesis by (simp add: and_then_def)
  next
    case (Inr a)
    with Pair have "and_then m f s = f a s'" by (simp add: and_then_def)
    with f [of s' a] 1 tr show ?thesis by metis
  qed
qed

section \<open>Classification of endpoints\<close>

lemma split_not_Nil [simp]: "split sep cs \<noteq> []"
  by (induction cs) (auto split: list.splits)

lemma split_no_sep: "sep \<notin> set cs \<Longrightarrow> split sep cs = [cs]"
  by (induction cs) auto

lemma split_append_sep: "sep \<notin> set cs \<Longrightarrow> split sep (cs @ sep # r) = cs # split sep r"
  by (induction cs) auto

lemma compCode_competitions:
  assumes "CHR ''/'' \<notin> set c"
  shows "compCode (''/competitions/'' @ c) = JStr c"
    and "compCode (''/competitions/'' @ c @ CHR ''/'' # r) = JStr c"
proof -
  have a: "split CHR ''/'' (''/competitions/'' @ cs) = [] # ''competitions'' # split CHR ''/'' cs" for cs
    using split_append_sep [of "CHR ''/''" "''competitions''" cs] by simp
  show "compCode (''/competitions/'' @ c) = JStr c"
    unfolding compCode_def a using assms by (simp add: split_no_sep)
  show "compCode (''/competitions/'' @ c @ CHR ''/'' # r) = JStr c"
    unfolding compCode_def a using assms by (simp add: split_append_sep)
qed

lemma not_sublist_slash: "CHR ''/'' \<notin> set c \<Longrightarrow> \<not> sublist (CHR ''/'' # p) c"
  using set_mono_sublist by fastforce

lemma takeWhile_until_sep:
  "sep \<notin> set c \<Longrightarrow> takeWhile (\<lambda>x. x \<noteq> sep) (rev c @ sep # r) = rev c"
  by (subst takeWhile_append2) auto

lemma tail_after_last_sep:
  assumes "sep \<notin> set c" "sep \<notin> set p" "a @ sep # c = b @ sep # p"
  shows "c = p"
proof -
  have "rev (takeWhile (\<lambda>x. x \<noteq> sep) (rev (a @ sep # c))) = c"
    using assms(1) by (simp add: takeWhile_until_sep)
  moreover have "rev (takeWhile (\<lambda>x. x \<noteq> sep) (rev (b @ sep # p))) = p"
    using assms(2) by (simp add: takeWhile_until_sep)
  ultimately show ?thesis using assms(3) by simp
qed

lemma suffix_after_sep:
  assumes "sep \<notin> set c" "sep \<notin> set p"
  shows "suffix (sep # p) (pre @ sep # c) \<longleftrightarrow> p = c"
proof
  assume "suffix (sep # p) (pre @ sep # c)"
  then obtain zs where "pre @ sep # c = zs @ sep # p" by (auto simp: suffix_def)
  from tail_after_last_sep [OF assms this] show "p = c" by simp
next
  assume "p = c"
  then show "suffix (sep # p) (pre @ sep # c)" by (simp add: suffix_def)
qed

lemma classify_bare:
  assumes "CHR ''/'' \<notin> set c" "\<not> prefix ''matches'' c" "c \<noteq> ''standings''"
  shows "classify (''/competitions/'' @ c) = Some Competition"
proof -
  have 1: "startsWith (''/competitions/'' @ c) ''/competitions/''"
    by (simp add: startsWith_def)
  have 2: "\<not> includes_str (''/competitions/'' @ c) ''/matches''"
    using assms(1,2) not_sublist_slash [OF assms(1), of "''matches''"]
    by (simp add: includes_str_def sublist_Cons_right)
  have "\<not> suffix (CHR ''/'' # ''standings'') (''/competitions'' @ CHR ''/'' # c)"
    using suffix_after_sep [OF assms(1), of "''standings''" "''/competitions''"] assms(3)
    by auto
  then have 3: "\<not> endsWith (''/competitions/'' @ c) ''/standings''"
    by (simp add: endsWith_def)
  show ?thesis using 1 2 3 by (simp add: classify_def)
qed

lemma classify_standings:
  "classify (''/competitions/'' @ c @ ''/standings'') = Some Standing"
proof -
  have "suffix ''/standings'' ((''/competitions/'' @ c) @ ''/standings'')"
    by (rule suffixI) simp
  then show ?thesis by (simp add: classify_def startsWith_def endsWith_def)
qed

lemma classify_matches:
  assumes "CHR ''/'' \<notin> set q"
  shows "classify (''/competitions/'' @ c @ ''/matches'' @ q) = Some Match"
proof -
  have "sublist ''/matches'' ((''/competitions/'' @ c) @ ''/matches'' @ q)"
    unfolding sublist_def by blast
  then have 1: "includes_str (''/competitions/'' @ c @ ''/matches'' @ q) ''/matches''"
    by (simp add: includes_str_def)
  have "\<not> suffix (CHR ''/'' # ''standings'') ((''/competitions/'' @ c) @ CHR ''/'' # (''matches'' @ q))"
    using suffix_after_sep [of "CHR ''/''" "''matches'' @ q" "''standings''" "''/competitions/'' @ c"] assms
    by auto
  then have 2: "\<not> endsWith (''/competitions/'' @ c @ ''/matches'' @ q) ''/standings''"
    by (simp add: endsWith_def)
  show ?thesis using 1 2 by (simp add: classify_def)
qed

lemma classify_examples:
  "classify ''/competitions/PL/standings'' = Some Standing"
  "classify ''/competitions/PL'' = Some Competition"
  "classify ''/competitions/PL/matches?status=FINISHED'' = Some Match"
  "compCode ''/competitions/PL/standings'' = JStr ''PL''"
  "compCode ''/competitions/PL'' = JStr ''PL''"
  "compCode ''/competitions/PL/matches?status=FINISHED'' = JStr ''PL''"
  by (simp_all add: classify_def startsWith_def endsWith_def includes_str_def
      suffix_to_prefix sublist_Cons_right compCode_def)

text \<open>
  Claim C4.  The three checks are made in the order standings, bare competition, matches:
  an endpoint is of Standing kind exactly when it passes the first check, of Competition
  kind exactly when it fails the first and passes the second, of Match kind exactly when it
  fails the first and contains \<^verbatim>\<open>/matches\<close>.  The code is the third segment of the path:
  for a code \<open>c\<close> without a slash, \<^verbatim>\<open>/competitions/c/standings\<close> is of Standing kind with code
  \<open>c\<close>, \<^verbatim>\<open>/competitions/c\<close> is of Competition kind with code \<open>c\<close> (when \<open>c\<close> is not
  \<^verbatim>\<open>standings\<close> and does not start with \<^verbatim>\<open>matches\<close>), and \<^verbatim>\<open>/competitions/c/matches\<close> followed by
  a query without a slash is of Match kind with code \<open>c\<close>.
\<close>

theorem classify_order_and_code:
  "(classify e = Some Standing \<longleftrightarrow>
      startsWith e ''/competitions/'' \<and> endsWith e ''/standings'')
   \<and> (classify e = Some Competition \<longleftrightarrow>
      \<not> (startsWith e ''/competitions/'' \<and> endsWith e ''/standings'')
      \<and> startsWith e ''/competitions/'' \<and> \<not> includes_str e ''/matches'')
   \<and> (classify e = Some Match \<longleftrightarrow>
      \<not> (startsWith e ''/competitions/'' \<and> endsWith e ''/standings'')
      \<and> includes_str e ''/matches'')
   \<and> (CHR ''/'' \<notin> set c \<longrightarrow>
        classify (''/competitions/'' @ c @ ''/standings'') = Some Standing
        \<and> compCode (''/competitions/'' @ c @ ''/standings'') = JStr c)
   \<and> (CHR ''/'' \<notin> set c \<and> \<not> prefix ''matches'' c \<and> c \<noteq> ''standings'' \<longrightarrow>
        classify (''/competitions/'' @ c) = Some Competition
        \<and> compCode (''/competitions/'' @ c) = JStr c)
   \<and> (CHR ''/'' \<notin> set c \<and> CHR ''/'' \<notin> set q \<longrightarrow>
        classify (''/competitions/'' @ c @ ''/matches'' @ q) = Some Match
        \<and> compCode (''/competitions/'' @ c @ ''/matches'' @ q) = JStr c)"
proof -
  have "classify e = Some Standing \<longleftrightarrow>
      startsWith e ''/competitions/'' \<and> endsWith e ''/standings''"
    by (simp add: classify_def)
  moreover have "classify e = Some Competition \<longleftrightarrow>
      \<not> (startsWith e ''/competitions/'' \<and> endsWith e ''/standings'')
      \<and> startsWith e ''/competitions/'' \<and> \<not> includes_str e ''/matches''"
    by (simp add: classify_def)
  moreover have "classify e = Some Match \<longleftrightarrow>
      \<not> (startsWith e ''/competitions/'' \<and> endsWith e ''/standings'')
      \<and> includes_str e ''/matches''"
    by (auto simp add: classify_def)
  moreover have "CHR ''/'' \<notin> set c \<longrightarrow>
        classify (''/competitions/'' @ c @ ''/standings'') = Some Standing
        \<and> compCode (''/competitions/'' @ c @ ''/standings'') = JStr c"
    using classify_standings [of c] compCode_competitions(2) [of c "''standings''"] by simp
  moreover have "CHR ''/'' \<notin> set c \<and> \<not> prefix ''matches'' c \<and> c \<noteq> ''standings'' \<longrightarrow>
        classify (''/competitions/'' @ c) = Some Competition
        \<and> compCode (''/competitions/'' @ c) = JStr c"
    using classify_bare [of c] compCode_competitions(1) [of c] by simp
  moreover have "CHR ''/'' \<notin> set c \<and> CHR ''/'' \<notin> set q \<longrightarrow>
        classify (''/competitions/'' @ c @ ''/matches'' @ q) = Some Match
        \<and> compCode (''/competitions/'' @ c @ ''/matches'' @ q) = JStr c"
    using classify_matches [of q c] compCode_competitions(2) [of c "''matches'' @ q"] by simp
  ultimately show ?thesis by blast
qed

text \<open>
  The three endpoints of the specification, and an endpoint that passes both the standings
  check and the matches check: the first check wins.
\<close>

theorem classify_order_and_code_witness:
  "classify ''/competitions/PL/standings'' = Some Standing
   \<and> compCode ''/competitions/PL/standings'' = JStr ''PL''
   \<and> classify ''/competitions/PL'' = Some Competition
   \<and> compCode ''/competitions/PL'' = JStr ''PL''
   \<and> classify ''/competitions/PL/matches?status=FINISHED'' = Some Match
   \<and> compCode ''/competitions/PL/matches?status=FINISHED'' = JStr ''PL''
   \<and> startsWith ''/competitions/PL/matches/standings'' ''/competitions/''
   \<and> includes_str ''/competitions/PL/matches/standings'' ''/matches''
   \<and> classify ''/competitions/PL/matches/standings'' = Some Standing"
  using classify_order_and_code [of "''/competitions/PL/matches/standings''" "''PL''" "''?status=FINISHED''"]
  by (simp add: startsWith_def endsWith_def includes_str_def suffix_to_prefix sublist_Cons_right)

section \<open>Upstream calls and the counter\<close>

lemma same_requests_refl [simp]: "same_requests s s"
  by (simp add: same_requests_def)

lemma same_requests_trans: "same_requests a b \<Longrightarrow> same_requests b c \<Longrightarrow> same_requests a c"
  by (simp add: same_requests_def)

lemma same_requests_and_then:
  "(\<And>s. same_requests s (snd (m s))) \<Longrightarrow> (\<And>a s. same_requests s (snd (f a s)))
     \<Longrightarrow> same_requests s (snd (and_then m f s))"
  by (rule and_then_snd [where R = same_requests]) (auto intro: same_requests_trans)

lemma same_requests_prims [simp]:
  "same_requests s (snd (eval r s))"
  "same_requests s (snd (log_step e s))"
  "same_requests s (snd (log_template vs e s))"
  "same_requests s (context_log e s)"
  "same_requests s (snd (ID_unique s))"
  "same_requests s (snd (listDocuments env c f v s))"
  "same_requests s (snd (createDocument env c i b p s))"
  by (simp_all add: same_requests_def eval_def log_step_def log_template_def context_log_def
      ID_unique_def
      listDocuments_def createDocument_def Let_def split: option.splits)

lemma same_requests_save_standing: "same_requests s (snd (save_standing env code st s))"
  unfolding save_standing_def by (intro same_requests_and_then same_requests_prims)

lemma same_requests_save_standings: "same_requests s (snd (save_standings env code sts s))"
proof (induction sts arbitrary: s)
  case Nil
  show ?case by simp
next
  case (Cons st sts)
  show ?case
    unfolding save_standings.simps
    by (intro same_requests_and_then same_requests_save_standing Cons.IH)
qed

lemma same_requests_process_standings:
  "same_requests s (snd (process_standings env ep data s))"
  unfolding process_standings_def
  by (intro same_requests_and_then same_requests_prims same_requests_save_standings)

lemma same_requests_process_competition:
  "same_requests s (snd (process_competition env ep data s))"
  unfolding process_competition_def
  by (intro same_requests_and_then same_requests_prims)
    (auto intro!: same_requests_and_then)

lemma same_requests_process_match: "same_requests s (snd (process_match env code m s))"
  unfolding process_match_def
  by (intro same_requests_and_then same_requests_prims)
    (auto intro!: same_requests_and_then)

lemma same_requests_process_matches: "same_requests s (snd (process_matches env code ms s))"
proof (induction ms arbitrary: s)
  case Nil
  show ?case by simp
next
  case (Cons m ms)
  show ?case
    unfolding process_matches.simps
    by (intro same_requests_and_then same_requests_process_match Cons.IH)
qed

lemma same_requests_process_match_list:
  "same_requests s (snd (process_match_list env ep data s))"
  unfolding process_match_list_def
  by (intro same_requests_and_then same_requests_prims same_requests_process_matches)

lemma same_requests_log_api_response:
  "same_requests s (snd (log_api_response ep data s))"
  by (simp add: log_api_response_def)

text \<open>What follows the fetch and the increment in the body of the \<^verbatim>\<open>try\<close>.\<close>

lemma same_requests_dispatch:
  "same_requests s (snd (and_then (log_api_response ep data) (\<lambda>_.
       case classify ep of
         Some Standing \<Rightarrow> process_standings env ep data
       | Some Competition \<Rightarrow> process_competition env ep data
       | Some Match \<Rightarrow> process_match_list env ep data
       | None \<Rightarrow> eval (Inr ())) s))"
  by (intro same_requests_and_then same_requests_log_api_response)
    (auto split: option.splits kind.splits
      intro: same_requests_process_standings same_requests_process_competition
        same_requests_process_match_list)

lemma try_body_requests:
  "http_calls (snd (try_body env ep s)) =
     http_calls s @ [(ep, \<not> isl (upstream env (length (http_calls s)) ep))]"
  "requestsMade (snd (try_body env ep s)) =
     (if isl (upstream env (length (http_calls s)) ep) then requestsMade s
      else Suc (requestsMade s))"
proof -
  show "http_calls (snd (try_body env ep s)) =
     http_calls s @ [(ep, \<not> isl (upstream env (length (http_calls s)) ep))]"
  proof (cases "upstream env (length (http_calls s)) ep")
    case (Inl msg)
    then show ?thesis by (simp add: try_body_def and_then_def axios_get_def)
  next
    case (Inr data)
    then show ?thesis
      using same_requests_dispatch [of "s\<lparr>http_calls := http_calls s @ [(ep, True)],
          requestsMade := Suc (requestsMade s)\<rparr>" ep data env]
      by (simp add: try_body_def and_then_def axios_get_def increment_requestsMade_def
          same_requests_def)
  qed
  show "requestsMade (snd (try_body env ep s)) =
     (if isl (upstream env (length (http_calls s)) ep) then requestsMade s
      else Suc (requestsMade s))"
  proof (cases "upstream env (length (http_calls s)) ep")
    case (Inl msg)
    then show ?thesis by (simp add: try_body_def and_then_def axios_get_def)
  next
    case (Inr data)
    then show ?thesis
      using same_requests_dispatch [of "s\<lparr>http_calls := http_calls s @ [(ep, True)],
          requestsMade := Suc (requestsMade s)\<rparr>" ep data env]
      by (simp add: try_body_def and_then_def axios_get_def increment_requestsMade_def
          same_requests_def)
  qed
qed

lemma run_task_requests:
  "http_calls (run_task env t s) =
     http_calls s @ [(endpoint t, \<not> isl (upstream env (length (http_calls s)) (endpoint t)))]"
  "requestsMade (run_task env t s) =
     (if isl (upstream env (length (http_calls s)) (endpoint t)) then requestsMade s
      else Suc (requestsMade s))"
  using try_body_requests [of env "endpoint t" "context_log (Debug_processing_task (endpoint t)) s"]
  by (auto simp add: run_task_def context_log_def split: prod.splits sum.splits)


lemma run_tasks_budget:
  "requestsMade s \<le> m \<Longrightarrow> requestsMade (run_tasks env m ts s) \<le> m"
proof (induction ts arbitrary: s)
  case Nil
  then show ?case by simp
next
  case (Cons t ts)
  show ?case
  proof (cases "m \<le> requestsMade s")
    case True
    with Cons.prems show ?thesis by (simp add: context_log_def)
  next
    case False
    then have "requestsMade (run_task env t s) \<le> m" by (simp add: run_task_requests)
    from Cons.IH [OF this] False show ?thesis by simp
  qed
qed

lemma run_tasks_responses:
  "length (filter snd (http_calls s)) = requestsMade s \<Longrightarrow>
   length (filter snd (http_calls (run_tasks env m ts s))) = requestsMade (run_tasks env m ts s)"
proof (induction ts arbitrary: s)
  case Nil
  then show ?case by simp
next
  case (Cons t ts)
  show ?case
  proof (cases "m \<le> requestsMade s")
    case True
    with Cons.prems show ?thesis by (simp add: context_log_def)
  next
    case False
    have "length (filter snd (http_calls (run_task env t s))) = requestsMade (run_task env t s)"
      using Cons.prems by (simp add: run_task_requests)
    from Cons.IH [OF this] False show ?thesis by simp
  qed
qed

lemma run_tasks_attempts:
  "length (http_calls (run_tasks env m ts s)) \<le> length (http_calls s) + length ts"
proof (induction ts arbitrary: s)
  case Nil
  then show ?case by simp
next
  case (Cons t ts)
  show ?case
  proof (cases "m \<le> requestsMade s")
    case True
    then show ?thesis by (simp add: context_log_def)
  next
    case False
    with Cons.IH [of "run_task env t s"] show ?thesis by (simp add: run_task_requests)
  qed
qed

lemma run_tasks_exhausted:
  assumes "m \<le> requestsMade s"
  shows "http_calls (run_tasks env m ts s) = http_calls s"
    and "store (run_tasks env m ts s) = store s"
    and "store_calls (run_tasks env m ts s) = store_calls s"
    and "requestsMade (run_tasks env m ts s) = requestsMade s"
  using assms by (cases ts; simp add: context_log_def)+

lemma handler_with_state:
  "init_failure env = None \<Longrightarrow>
   snd (handler_with env m ts d) =
     run_tasks env m ts
       (context_log (Debug_processing_tasks (length ts) (map endpoint ts))
         (context_log Debug_client_initialized (context_log Debug_invoked (initial d))))"
  "init_failure env = Some msg \<Longrightarrow>
   snd (handler_with env m ts d) =
     context_log (Error_unexpected msg) (context_log Debug_invoked (initial d))"
  by (simp_all add: handler_with_def Let_def)

lemma start_fields [simp]:
  "requestsMade (context_log e s) = requestsMade s"
  "http_calls (context_log e s) = http_calls s"
  "store (context_log e s) = store s"
  "store_calls (context_log e s) = store_calls s"
  "sink (context_log e s) = sink s @ [e]"
  "requestsMade (initial d) = 0"
  "http_calls (initial d) = []"
  "store (initial d) = d"
  "store_calls (initial d) = []"
  "sink (initial d) = []"
  by (simp_all add: context_log_def initial_def)

text \<open>
  Claim C1, as amended.  The counter never exceeds the budget, and it counts the upstream
  calls that returned a response: so at most budget-many calls return a response in one
  invocation.  Calls that fail are not counted; the number of calls issued is bounded by
  the length of the task list.  Once the counter has reached the budget the loop issues no
  further call and writes nothing.
\<close>

theorem requests_made_within_budget:
  "requestsMade (snd (handler_with env m ts d)) \<le> m
   \<and> length (filter snd (http_calls (snd (handler_with env m ts d))))
       = requestsMade (snd (handler_with env m ts d))
   \<and> length (http_calls (snd (handler_with env m ts d))) \<le> length ts
   \<and> (m \<le> requestsMade s \<longrightarrow>
        http_calls (run_tasks env m ts s) = http_calls s
        \<and> store (run_tasks env m ts s) = store s
        \<and> requestsMade (run_tasks env m ts s) = requestsMade s)"
proof (cases "init_failure env")
  case None
  let ?s0 = "context_log (Debug_processing_tasks (length ts) (map endpoint ts))
         (context_log Debug_client_initialized (context_log Debug_invoked (initial d)))"
  have st: "snd (handler_with env m ts d) = run_tasks env m ts ?s0"
    using None by (rule handler_with_state)
  have "requestsMade (run_tasks env m ts ?s0) \<le> m"
    by (rule run_tasks_budget) simp
  moreover have "length (filter snd (http_calls (run_tasks env m ts ?s0)))
      = requestsMade (run_tasks env m ts ?s0)"
    by (rule run_tasks_responses) simp
  moreover have "length (http_calls (run_tasks env m ts ?s0)) \<le> length ts"
    using run_tasks_attempts [of env m ts ?s0] by simp
  ultimately show ?thesis using st run_tasks_exhausted [of m s env ts] by simp
next
  case (Some msg)
  then show ?thesis
    using run_tasks_exhausted [of m s env ts] by (simp add: handler_with_state)
qed

theorem requests_made_within_budget_witness:
  "maxRequests_default \<le> requestsMade spent
   \<and> http_calls (run_tasks upstream_down maxRequests_default tasks spent) = http_calls spent
   \<and> store (run_tasks upstream_down maxRequests_default tasks spent) = store spent"
  using requests_made_within_budget
    [of upstream_down maxRequests_default tasks empty_database spent]
  by (simp add: spent_def maxRequests_default_def)

lemma run_tasks_all_fail:
  assumes "\<And>n e. isl (upstream env n e)" "requestsMade s < m"
  shows "http_calls (run_tasks env m ts s) = http_calls s @ map (\<lambda>t. (endpoint t, False)) ts"
    and "requestsMade (run_tasks env m ts s) = requestsMade s"
  using assms(2)
  by (induction ts arbitrary: s) (simp_all add: run_task_requests assms(1))

lemma handler_with_all_fail:
  assumes "init_failure env = None" "\<And>n e. isl (upstream env n e)" "0 < m"
  shows "length (http_calls (snd (handler_with env m ts d))) = length ts"
    and "requestsMade (snd (handler_with env m ts d)) = 0"
  using assms by (simp_all add: handler_with_state run_tasks_all_fail)

theorem attempts_exceed_budget_counterexample:
  "length (http_calls (snd (handler_with upstream_down maxRequests_default eleven_tasks
      empty_database))) = 11
   \<and> \<not> (11 \<le> maxRequests_default)"
proof -
  have "init_failure upstream_down = None" "\<And>n e. isl (upstream upstream_down n e)"
    by (simp_all add: upstream_down_def)
  then have "length (http_calls (snd (handler_with upstream_down maxRequests_default
      eleven_tasks empty_database))) = length eleven_tasks"
    by (rule handler_with_all_fail) (simp add: maxRequests_default_def)
  then show ?thesis
    by (simp add: maxRequests_default_def eleven_tasks_def tasks_def)
qed

text \<open>
  Claim C3, as amended.  Every pass through the body of the \<^verbatim>\<open>try\<close> issues exactly one
  upstream call.  The counter goes up by one when that call returns a response, whatever
  the classification, the payload and the store then do, and stays as it is when the
  call fails.
\<close>

theorem counter_counts_responses:
  "http_calls (snd (try_body env ep s)) =
     http_calls s @ [(ep, \<not> isl (upstream env (length (http_calls s)) ep))]
   \<and> requestsMade (snd (try_body env ep s)) =
     (if isl (upstream env (length (http_calls s)) ep) then requestsMade s
      else Suc (requestsMade s))"
  by (simp add: try_body_requests)

theorem failed_fetch_not_counted_counterexample:
  "length (http_calls (snd (handler upstream_down empty_database))) = 9
   \<and> requestsMade (snd (handler upstream_down empty_database)) = 0"
proof -
  have a: "init_failure upstream_down = None" "\<And>n e. isl (upstream upstream_down n e)"
    by (simp_all add: upstream_down_def)
  have b: "0 < maxRequests_default" by (simp add: maxRequests_default_def)
  have "length tasks = 9" by (simp add: tasks_def)
  with handler_with_all_fail [OF a b, of tasks empty_database] show ?thesis
    by (simp add: handler_def)
qed

text \<open>
  Claim C9.  In both shapes of the result the \<^verbatim>\<open>logs\<close> field is the empty array: the
  result is the error shape with the message of the failed initialisation, or the success
  shape with the counter, and nothing of what the tasks logged.
\<close>

theorem result_logs_empty:
  "lookup_prop (fst (handler_with env m ts d)) ''logs'' = JArr []
   \<and> fst (handler_with env m ts d) =
       (case init_failure env of
          Some msg \<Rightarrow>
            JObj [(''status'', JStr ''error''), (''message'', JStr msg), (''logs'', JArr [])]
        | None \<Rightarrow>
            JObj [(''status'', JStr ''success''), (''logs'', JArr []),
                  (''requests_made'',
                   JNum (int (requestsMade (snd (handler_with env m ts d)))))])"
  by (simp add: handler_with_def Let_def split: option.splits)

section \<open>Store writes\<close>

lemma perms_for_if:
  "perms_for c = (if c = STANDINGS_COLLECTION_ID then None else Some [Permission_read Role_any])"
  by (cases c) simp_all

lemma only_creates_refl [simp]: "only_creates s s"
  by (simp add: only_creates_def)

lemma only_creates_trans:
  assumes "only_creates a b" "only_creates b c"
  shows "only_creates a c"
proof -
  have "\<exists>new. docs (store c) k = docs (store a) k @ new
        \<and> (\<forall>x\<in>set new. doc_perms x = perms_for k)" for k
  proof -
    from assms(1) obtain n1 where 1: "docs (store b) k = docs (store a) k @ n1"
      "\<forall>x\<in>set n1. doc_perms x = perms_for k"
      unfolding only_creates_def by blast
    from assms(2) obtain n2 where 2: "docs (store c) k = docs (store b) k @ n2"
      "\<forall>x\<in>set n2. doc_perms x = perms_for k"
      unfolding only_creates_def by blast
    from 1 2 have "docs (store c) k = docs (store a) k @ (n1 @ n2)"
      "\<forall>x\<in>set (n1 @ n2). doc_perms x = perms_for k" by auto
    then show ?thesis by blast
  qed
  moreover have "\<exists>calls. store_calls c = store_calls a @ calls \<and> (\<forall>k\<in>set calls. as_written k)"
  proof -
    from assms(1) obtain c1 where 1: "store_calls b = store_calls a @ c1"
      "\<forall>k\<in>set c1. as_written k"
      unfolding only_creates_def by blast
    from assms(2) obtain c2 where 2: "store_calls c = store_calls b @ c2"
      "\<forall>k\<in>set c2. as_written k"
      unfolding only_creates_def by blast
    from 1 2 have "store_calls c = store_calls a @ (c1 @ c2)"
      "\<forall>k\<in>set (c1 @ c2). as_written k" by auto
    then show ?thesis by blast
  qed
  ultimately show ?thesis unfolding only_creates_def by blast
qed

lemma only_creates_and_then:
  "(\<And>s. only_creates s (snd (m s))) \<Longrightarrow> (\<And>a s. only_creates s (snd (f a s)))
     \<Longrightarrow> only_creates s (snd (and_then m f s))"
  by (rule and_then_snd [where R = only_creates]) (auto intro: only_creates_trans)

lemma only_creates_prims [simp]:
  "only_creates s (snd (eval r s))"
  "only_creates s (snd (log_step e s))"
  "only_creates s (snd (log_template vs e s))"
  "only_creates s (context_log e s)"
  "only_creates s (snd (ID_unique s))"
  "only_creates s (snd (listDocuments env c f v s))"
  "only_creates s (snd (axios_get env ep s))"
  "only_creates s (snd (increment_requestsMade s))"
  "only_creates s (snd (log_api_response ep data s))"
  by (simp_all add: only_creates_def eval_def log_step_def log_template_def context_log_def
      ID_unique_def
      listDocuments_def axios_get_def increment_requestsMade_def log_api_response_def
      Let_def split: option.splits sum.splits)

lemma only_creates_createDocument:
  "p = perms_for c \<Longrightarrow> only_creates s (snd (createDocument env c i b p s))"
  by (simp add: only_creates_def createDocument_def Let_def split: option.splits)

lemma only_creates_save_standing: "only_creates s (snd (save_standing env code st s))"
  unfolding save_standing_def
  by (intro only_creates_and_then only_creates_prims only_creates_createDocument) simp

lemma only_creates_save_standings: "only_creates s (snd (save_standings env code sts s))"
proof (induction sts arbitrary: s)
  case Nil
  show ?case by simp
next
  case (Cons st sts)
  show ?case
    unfolding save_standings.simps
    by (intro only_creates_and_then only_creates_save_standing Cons.IH)
qed

lemma only_creates_process_standings:
  "only_creates s (snd (process_standings env ep data s))"
  unfolding process_standings_def
  by (intro only_creates_and_then only_creates_prims only_creates_save_standings)

lemma only_creates_process_competition:
  "only_creates s (snd (process_competition env ep data s))"
  unfolding process_competition_def
  by (intro only_creates_and_then only_creates_prims)
    (auto intro!: only_creates_and_then only_creates_createDocument)

lemma only_creates_process_match: "only_creates s (snd (process_match env code m s))"
  unfolding process_match_def
  by (intro only_creates_and_then only_creates_prims)
    (auto intro!: only_creates_and_then only_creates_createDocument)

lemma only_creates_process_matches: "only_creates s (snd (process_matches env code ms s))"
proof (induction ms arbitrary: s)
  case Nil
  show ?case by simp
next
  case (Cons m ms)
  show ?case
    unfolding process_matches.simps
    by (intro only_creates_and_then only_creates_process_match Cons.IH)
qed

lemma only_creates_process_match_list:
  "only_creates s (snd (process_match_list env ep data s))"
  unfolding process_match_list_def
  by (intro only_creates_and_then only_creates_prims only_creates_process_matches)

lemma only_creates_try_body: "only_creates s (snd (try_body env ep s))"
  unfolding try_body_def
  by (intro only_creates_and_then only_creates_prims)
    (auto split: option.splits kind.splits
      intro: only_creates_process_standings only_creates_process_competition
        only_creates_process_match_list)

lemma only_creates_run_task: "only_creates s (run_task env t s)"
proof -
  let ?s1 = "context_log (Debug_processing_task (endpoint t)) s"
  have 1: "only_creates s ?s1" by simp
  have 2: "only_creates ?s1 (snd (try_body env (endpoint t) ?s1))"
    by (rule only_creates_try_body)
  have 3: "only_creates (snd (try_body env (endpoint t) ?s1)) (run_task env t s)"
    by (auto simp: run_task_def split: prod.splits sum.splits)
  from 1 2 3 show ?thesis by (blast intro: only_creates_trans)
qed

lemma only_creates_run_tasks: "only_creates s (run_tasks env m ts s)"
proof (induction ts arbitrary: s)
  case Nil
  show ?case by simp
next
  case (Cons t ts)
  show ?case
  proof (cases "m \<le> requestsMade s")
    case True
    then show ?thesis by simp
  next
    case False
    with only_creates_run_task [of s env t] Cons.IH [of "run_task env t s"] show ?thesis
      by (auto intro: only_creates_trans)
  qed
qed

lemma only_creates_handler_with: "only_creates (initial d) (snd (handler_with env m ts d))"
proof (cases "init_failure env")
  case None
  let ?s0 = "context_log (Debug_processing_tasks (length ts) (map endpoint ts))
         (context_log Debug_client_initialized (context_log Debug_invoked (initial d)))"
  have "only_creates (initial d) ?s0"
    by (simp add: only_creates_def)
  with only_creates_run_tasks [of ?s0 env m ts] None show ?thesis
    by (auto simp: handler_with_state intro: only_creates_trans)
next
  case (Some msg)
  then show ?thesis by (simp add: handler_with_state only_creates_def)
qed

text \<open>
  Claim C10.  An invocation leaves every document of the store in place and appends
  documents to the three collections; those it appends to the competitions and to the
  matches carry the public-read permission, those it appends to the standings were created
  with no permission argument.  Every store call it issues is a \<^verbatim>\<open>listDocuments\<close> or a
  \<^verbatim>\<open>createDocument\<close> with these permissions: there is no update and no deletion.
\<close>

theorem documents_only_created:
  "\<exists>cs ss ms.
     docs (store (snd (handler_with env m ts d))) COMPETITIONS_COLLECTION_ID
       = docs d COMPETITIONS_COLLECTION_ID @ cs
     \<and> (\<forall>x\<in>set cs. doc_perms x = Some [Permission_read Role_any])
     \<and> docs (store (snd (handler_with env m ts d))) STANDINGS_COLLECTION_ID
       = docs d STANDINGS_COLLECTION_ID @ ss
     \<and> (\<forall>x\<in>set ss. doc_perms x = None)
     \<and> docs (store (snd (handler_with env m ts d))) MATCHES_COLLECTION_ID
       = docs d MATCHES_COLLECTION_ID @ ms
     \<and> (\<forall>x\<in>set ms. doc_perms x = Some [Permission_read Role_any])
     \<and> (\<forall>k\<in>set (store_calls (snd (handler_with env m ts d))).
          case k of
            ListDocuments c f v \<Rightarrow> True
          | CreateDocument c i b p \<Rightarrow>
              p = (if c = STANDINGS_COLLECTION_ID then None
                   else Some [Permission_read Role_any]))"
proof -
  let ?s = "snd (handler_with env m ts d)"
  have oc: "only_creates (initial d) ?s" by (rule only_creates_handler_with)
  from oc obtain cs where cs: "docs (store ?s) COMPETITIONS_COLLECTION_ID
       = docs d COMPETITIONS_COLLECTION_ID @ cs"
    "\<forall>x\<in>set cs. doc_perms x = Some [Permission_read Role_any]"
    unfolding only_creates_def by (metis perms_for.simps(1) start_fields(8))
  from oc obtain ss where ss: "docs (store ?s) STANDINGS_COLLECTION_ID
       = docs d STANDINGS_COLLECTION_ID @ ss"
    "\<forall>x\<in>set ss. doc_perms x = None"
    unfolding only_creates_def by (metis perms_for.simps(2) start_fields(8))
  from oc obtain ms where ms: "docs (store ?s) MATCHES_COLLECTION_ID
       = docs d MATCHES_COLLECTION_ID @ ms"
    "\<forall>x\<in>set ms. doc_perms x = Some [Permission_read Role_any]"
    unfolding only_creates_def by (metis perms_for.simps(3) start_fields(8))
  from oc have "\<forall>k\<in>set (store_calls ?s). as_written k"
    unfolding only_creates_def by auto
  moreover have "as_written k \<Longrightarrow> (case k of
            ListDocuments c f v \<Rightarrow> True
          | CreateDocument c i b p \<Rightarrow>
              p = (if c = STANDINGS_COLLECTION_ID then None
                   else Some [Permission_read Role_any]))" for k
    by (cases k) (simp_all add: perms_for_if)
  ultimately have "\<forall>k\<in>set (store_calls ?s). case k of
            ListDocuments c f v \<Rightarrow> True
          | CreateDocument c i b p \<Rightarrow>
              p = (if c = STANDINGS_COLLECTION_ID then None
                   else Some [Permission_read Role_any])" by blast
  with cs ss ms show ?thesis by blast
qed


section \<open>Failures of single tasks\<close>

lemma run_tasks_fold:
  "requestsMade s + length ts \<le> m \<Longrightarrow> run_tasks env m ts s = fold (run_task env) ts s"
proof (induction ts arbitrary: s)
  case Nil
  show ?case by simp
next
  case (Cons t ts)
  from Cons.prems have "requestsMade (run_task env t s) + length ts \<le> m"
    by (simp add: run_task_requests)
  from Cons.IH [OF this] Cons.prems show ?case by simp
qed

lemma fold_run_task_calls:
  "map fst (http_calls (fold (run_task env) ts s)) = map fst (http_calls s) @ map endpoint ts"
  by (induction ts arbitrary: s) (simp_all add: run_task_requests)

lemma run_task_caught:
  assumes "fst (try_body env (endpoint t) (context_log (Debug_processing_task (endpoint t)) s))
    = Inl e"
  shows "sink (run_task env t s) =
      sink (snd (try_body env (endpoint t) (context_log (Debug_processing_task (endpoint t)) s)))
        @ [Error_failed_task (endpoint t) e]"
    and "store (run_task env t s) =
      store (snd (try_body env (endpoint t) (context_log (Debug_processing_task (endpoint t)) s)))"
  using assms by (auto simp: run_task_def split: prod.splits sum.splits)

lemma docs_kept: "only_creates s s' \<Longrightarrow> prefix (docs (store s) c) (docs (store s') c)"
  unfolding only_creates_def by (metis prefixI)

text \<open>
  Claim C8.  When the initialisation succeeds the result has status \<^verbatim>\<open>success\<close>, whatever
  the tasks did.  An error thrown in the body of the \<^verbatim>\<open>try\<close> of a task is logged as a
  failed task, the state reached at the throw is kept, and the loop goes on with the next
  task: when the budget covers the task list the loop is the plain iteration of the guarded
  task over the whole list, so every task issues its upstream call, in order.  Every
  document that was in the store, or was written by an earlier task, stays.
\<close>

theorem task_failures_are_contained:
  "(init_failure env = None \<longrightarrow>
      lookup_prop (fst (handler_with env m ts d)) ''status'' = JStr ''success''
      \<and> (length ts \<le> m \<longrightarrow>
           snd (handler_with env m ts d) =
             fold (run_task env) ts
               (context_log (Debug_processing_tasks (length ts) (map endpoint ts))
                 (context_log Debug_client_initialized (context_log Debug_invoked (initial d))))
           \<and> map fst (http_calls (snd (handler_with env m ts d))) = map endpoint ts))
   \<and> (fst (try_body env (endpoint t) (context_log (Debug_processing_task (endpoint t)) s))
         = Inl e \<longrightarrow>
       sink (run_task env t s) =
         sink (snd (try_body env (endpoint t)
           (context_log (Debug_processing_task (endpoint t)) s)))
         @ [Error_failed_task (endpoint t) e]
       \<and> store (run_task env t s) =
         store (snd (try_body env (endpoint t)
           (context_log (Debug_processing_task (endpoint t)) s))))
   \<and> (requestsMade s < m \<longrightarrow>
        run_tasks env m (t # ts) s = run_tasks env m ts (run_task env t s))
   \<and> prefix (docs (store s) c) (docs (store (run_tasks env m ts s)) c)
   \<and> prefix (docs d c) (docs (store (snd (handler_with env m ts d))) c)"
proof -
  let ?s0 = "context_log (Debug_processing_tasks (length ts) (map endpoint ts))
         (context_log Debug_client_initialized (context_log Debug_invoked (initial d)))"
  have 1: "lookup_prop (fst (handler_with env m ts d)) ''status'' = JStr ''success''"
    if "init_failure env = None"
    using that by (simp add: handler_with_def Let_def)
  have 2: "snd (handler_with env m ts d) = fold (run_task env) ts ?s0"
    if "init_failure env = None" "length ts \<le> m"
    using that run_tasks_fold [of ?s0 ts m env] by (simp add: handler_with_state)
  have 3: "map fst (http_calls (snd (handler_with env m ts d))) = map endpoint ts"
    if "init_failure env = None" "length ts \<le> m"
    using 2 [OF that] fold_run_task_calls [of env ts ?s0] by simp
  have 4: "prefix (docs (store s) c) (docs (store (run_tasks env m ts s)) c)"
    using only_creates_run_tasks by (rule docs_kept)
  have 5: "prefix (docs d c) (docs (store (snd (handler_with env m ts d))) c)"
    using docs_kept [OF only_creates_handler_with, of d c env m ts] by simp
  show ?thesis
    using 1 2 3 4 5 run_task_caught [of env t s e] by simp
qed

lemma run_tasks_all_fail_sink:
  assumes "\<And>n e. upstream env n e = Inl msg" "requestsMade s < m"
  shows "sink (run_tasks env m ts s) = sink s @ concat (map (\<lambda>t.
      [Debug_processing_task (endpoint t),
       Error_failed_task (endpoint t) (UpstreamError msg)]) ts)"
  using assms(2)
proof (induction ts arbitrary: s)
  case Nil
  show ?case by simp
next
  case (Cons t ts)
  have f: "\<And>n e. isl (upstream env n e)" by (simp add: assms(1))
  have a: "sink (run_task env t s) = sink s @
      [Debug_processing_task (endpoint t), Error_failed_task (endpoint t) (UpstreamError msg)]"
    by (simp add: run_task_def try_body_def and_then_def axios_get_def assms(1) context_log_def)
  have "requestsMade (run_task env t s) < m"
    using Cons.prems by (simp add: run_task_requests f)
  from Cons.IH [OF this] a Cons.prems show ?case by simp
qed

text \<open>Every fetch of the nine tasks fails: nine failures are logged, the status is success.\<close>

theorem task_failures_are_contained_witness:
  "init_failure upstream_down = None
   \<and> length tasks \<le> maxRequests_default
   \<and> lookup_prop (fst (handler upstream_down empty_database)) ''status'' = JStr ''success''
   \<and> map fst (http_calls (snd (handler upstream_down empty_database))) = map endpoint tasks
   \<and> filter (\<lambda>e. \<exists>ep err. e = Error_failed_task ep err)
        (sink (snd (handler upstream_down empty_database)))
      = map (\<lambda>t. Error_failed_task (endpoint t) (UpstreamError ''Network Error'')) tasks"
proof -
  have a: "init_failure upstream_down = None"
    "\<And>n e. upstream upstream_down n e = Inl ''Network Error''"
    by (simp_all add: upstream_down_def)
  have b: "length tasks \<le> maxRequests_default"
    by (simp add: tasks_def maxRequests_default_def)
  have c: "filter (\<lambda>e. \<exists>ep err. e = Error_failed_task ep err)
      (concat (map (\<lambda>t. [Debug_processing_task (endpoint t),
         Error_failed_task (endpoint t) (UpstreamError msg)]) ts))
    = map (\<lambda>t. Error_failed_task (endpoint t) (UpstreamError msg)) ts" for ts :: "task list" and msg
    by (induction ts) simp_all
  have "sink (snd (handler upstream_down empty_database)) =
      [Debug_invoked, Debug_client_initialized,
       Debug_processing_tasks (length tasks) (map endpoint tasks)]
      @ concat (map (\<lambda>t. [Debug_processing_task (endpoint t),
         Error_failed_task (endpoint t) (UpstreamError ''Network Error'')]) tasks)"
    using a by (simp add: handler_def handler_with_state run_tasks_all_fail_sink
        maxRequests_default_def)
  then have d: "filter (\<lambda>e. \<exists>ep err. e = Error_failed_task ep err)
        (sink (snd (handler upstream_down empty_database)))
      = map (\<lambda>t. Error_failed_task (endpoint t) (UpstreamError ''Network Error'')) tasks"
    using c by simp
  have "lookup_prop (fst (handler_with upstream_down maxRequests_default tasks empty_database))
        ''status'' = JStr ''success''
      \<and> map fst (http_calls (snd (handler_with upstream_down maxRequests_default tasks
        empty_database))) = map endpoint tasks"
    using task_failures_are_contained
      [of upstream_down maxRequests_default tasks empty_database
        "\<lparr>endpoint = ''/competitions/PL'', priority = 1\<rparr>" "initial empty_database"
        TypeError COMPETITIONS_COLLECTION_ID]
      a(1) b
    by blast
  with a(1) b d show ?thesis
    by (simp add: handler_def)
qed

section \<open>Payloads\<close>

lemma nullish_lookup [simp]: "nullish v \<Longrightarrow> lookup_prop v f = JUndefined"
  by (cases v) simp_all

lemma standing_data_complete:
  "complete_standing r \<Longrightarrow> standing_data code r = Inr (standing_body code r)"
  by (simp add: complete_standing_def standing_data_def standing_body_def on_value_def
      get_prop_def)

lemma standing_data_incomplete:
  "\<not> complete_standing r \<Longrightarrow> standing_data code r = Inl TypeError"
  by (auto simp add: complete_standing_def standing_data_def on_value_def get_prop_def)

lemma match_data_complete:
  "\<not> nullish m \<Longrightarrow> complete_match m \<Longrightarrow> match_data i code m = Inr (match_body i code m)"
proof -
  assume m: "\<not> nullish m" and c: "complete_match m"
  from c have s: "\<not> nullish (lookup_prop m ''score'')"
    unfolding complete_match_def using nullish_lookup by fastforce
  from m c s show ?thesis
    by (simp add: complete_match_def match_data_def match_body_def on_value_def get_prop_def)
qed

lemma match_data_incomplete:
  "\<not> complete_match m \<Longrightarrow> match_data i code m = Inl TypeError"
  by (auto simp add: complete_match_def match_data_def on_value_def get_prop_def)

lemma competition_data_cases:
  "competition_data code data =
     (if nullish data \<or> nullish (lookup_prop data ''area'') then Inl TypeError
      else Inr [(''code'', code), (''name'', lookup_prop data ''name''),
                (''area_name'', lookup_prop (lookup_prop data ''area'') ''name'')])"
  by (auto simp add: competition_data_def on_value_def get_prop_def)

section \<open>A store that does not fail\<close>

lemma reliable_listDocuments:
  "reliable env \<Longrightarrow> listDocuments env c f v s =
     (Inr (filter (\<lambda>d. map_of (doc_data d) f = Some v) (docs (store s) c)),
      s\<lparr>store_calls := store_calls s @ [ListDocuments c f v]\<rparr>)"
  by (simp add: reliable_def listDocuments_def)

lemma reliable_createDocument:
  "reliable env \<Longrightarrow> createDocument env c i b p s =
     (Inr (),
      s\<lparr>store_calls := store_calls s @ [CreateDocument c i b p],
        store := (store s)\<lparr>docs := (docs (store s))
          (c := docs (store s) c @ [\<lparr>doc_id = i, doc_data = b, doc_perms = p\<rparr>])\<rparr>\<rparr>)"
  by (simp add: reliable_def createDocument_def)

lemma filter_has_doc:
  "filter (\<lambda>d. map_of (doc_data d) f = Some v) (docs d0 c) = [] \<longleftrightarrow> \<not> has_doc d0 c f v"
  by (auto simp: has_doc_def filter_empty_conv)

lemma save_standing_reliable:
  assumes "reliable env"
  shows "save_standing env code r s =
    (if complete_standing r then
       (if loggable_standing r then
          (Inr (),
           s\<lparr>store_calls := store_calls s @
                [CreateDocument STANDINGS_COLLECTION_ID (next_id (store s))
                   (standing_body code r) None],
             store := \<lparr>docs = (docs (store s))
                 (STANDINGS_COLLECTION_ID := docs (store s) STANDINGS_COLLECTION_ID @
                   [\<lparr>doc_id = next_id (store s), doc_data = standing_body code r,
                     doc_perms = None\<rparr>]),
               next_id = Suc (next_id (store s))\<rparr>,
             sink := sink s @ [Debug_saved_standing code (lookup_prop r ''position'')
               (lookup_prop (lookup_prop r ''team'') ''name'')]\<rparr>)
        else
          (Inl TypeError,
           s\<lparr>store_calls := store_calls s @
                [CreateDocument STANDINGS_COLLECTION_ID (next_id (store s))
                   (standing_body code r) None],
             store := \<lparr>docs = (docs (store s))
                 (STANDINGS_COLLECTION_ID := docs (store s) STANDINGS_COLLECTION_ID @
                   [\<lparr>doc_id = next_id (store s), doc_data = standing_body code r,
                     doc_perms = None\<rparr>]),
               next_id = Suc (next_id (store s))\<rparr>\<rparr>))
     else (Inl TypeError, s\<lparr>store := (store s)\<lparr>next_id := Suc (next_id (store s))\<rparr>\<rparr>))"
  by (simp add: save_standing_def and_then_def ID_unique_def eval_def log_step_def
      log_template_def loggable_standing_def
      context_log_def reliable_createDocument [OF assms] standing_data_complete
      standing_data_incomplete)

subsection \<open>Standings\<close>

lemma save_standings_complete:
  assumes "reliable env" "\<forall>r\<in>set rows. complete_standing r \<and> loggable_standing r"
  shows "fst (save_standings env code rows s) = Inr ()
    \<and> docs (store (snd (save_standings env code rows s))) =
        (docs (store s))(STANDINGS_COLLECTION_ID := docs (store s) STANDINGS_COLLECTION_ID @
          map (\<lambda>(i, r). \<lparr>doc_id = i, doc_data = standing_body code r, doc_perms = None\<rparr>)
            (zip [next_id (store s)..<next_id (store s) + length rows] rows))
    \<and> next_id (store (snd (save_standings env code rows s))) = next_id (store s) + length rows
    \<and> store_calls (snd (save_standings env code rows s)) =
        store_calls s @
          map (\<lambda>(i, r). CreateDocument STANDINGS_COLLECTION_ID i (standing_body code r) None)
            (zip [next_id (store s)..<next_id (store s) + length rows] rows)"
  using assms(2)
proof (induction rows arbitrary: s)
  case Nil
  show ?case by (simp add: eval_def)
next
  case (Cons r rows)
  let ?n = "next_id (store s)"
  let ?s1 = "snd (save_standing env code r s)"
  from Cons.prems have r: "complete_standing r" "loggable_standing r"
    and rows: "\<forall>r\<in>set rows. complete_standing r \<and> loggable_standing r"
    by simp_all
  have step: "save_standings env code (r # rows) s = save_standings env code rows ?s1"
    using r by (simp add: and_then_def save_standing_reliable [OF assms(1)])
  have s1: "docs (store ?s1) = (docs (store s))(STANDINGS_COLLECTION_ID :=
        docs (store s) STANDINGS_COLLECTION_ID @
          [\<lparr>doc_id = ?n, doc_data = standing_body code r, doc_perms = None\<rparr>])"
    "next_id (store ?s1) = Suc ?n"
    "store_calls ?s1 = store_calls s @
        [CreateDocument STANDINGS_COLLECTION_ID ?n (standing_body code r) None]"
    using r by (simp_all add: save_standing_reliable [OF assms(1)])
  have upt: "[?n..<?n + length (r # rows)] = ?n # [Suc ?n..<Suc ?n + length rows]"
    by (subst upt_rec) simp
  from Cons.IH [OF rows, of ?s1] show ?case
    unfolding step upt by (simp add: s1 fun_eq_iff del: upt_Suc)
qed



lemma standings_of_table:
  assumes "\<not> nullish data"
  shows "standings_of data =
    slice10_or_empty (opt_prop (opt_index0 (lookup_prop data ''standings'')) ''table'')"
  using assms by (simp add: standings_of_def on_value_def get_prop_def)

text \<open>The body of the \<^verbatim>\<open>try\<close> once the fetch has returned a body.\<close>

lemma try_body_fetched:
  assumes "upstream env (length (http_calls s)) ep = Inr data" "data \<noteq> JUndefined"
  shows "try_body env ep s =
    (case classify ep of
       Some Standing \<Rightarrow> process_standings env ep data
     | Some Competition \<Rightarrow> process_competition env ep data
     | Some Match \<Rightarrow> process_match_list env ep data
     | None \<Rightarrow> eval (Inr ()))
    (s\<lparr>http_calls := http_calls s @ [(ep, True)],
       requestsMade := Suc (requestsMade s),
       sink := sink s @ [Debug_api_response ep data]\<rparr>)"
  using assms
  by (simp add: try_body_def and_then_def axios_get_def increment_requestsMade_def
      log_api_response_def log_step_def context_log_def)


lemma process_standings_sliced:
  assumes "\<not> nullish data"
    and "opt_prop (opt_index0 (lookup_prop data ''standings'')) ''table'' = JArr rows"
  shows "process_standings env ep data s =
    save_standings env (compCode ep) (take 10 rows)
      (context_log (Debug_processing_standings (length (take 10 rows)) (compCode ep)) s)"
  using assms by (simp add: process_standings_def standings_of_table)

lemma process_standings_complete:
  assumes "reliable env" "\<not> nullish data"
    and "opt_prop (opt_index0 (lookup_prop data ''standings'')) ''table'' = JArr rows"
    and "\<forall>r\<in>set (take 10 rows). complete_standing r \<and> loggable_standing r"
  shows "fst (process_standings env ep data s) = Inr ()"
    and "docs (store (snd (process_standings env ep data s))) =
        (docs (store s))(STANDINGS_COLLECTION_ID := docs (store s) STANDINGS_COLLECTION_ID @
          map (\<lambda>(i, r). \<lparr>doc_id = i, doc_data = standing_body (compCode ep) r, doc_perms = None\<rparr>)
            (zip [next_id (store s)..<next_id (store s) + min 10 (length rows)] (take 10 rows)))"
    and "store_calls (snd (process_standings env ep data s)) =
        store_calls s @
          map (\<lambda>(i, r). CreateDocument STANDINGS_COLLECTION_ID i (standing_body (compCode ep) r) None)
            (zip [next_id (store s)..<next_id (store s) + min 10 (length rows)] (take 10 rows))"
proof -
  let ?s1 = "context_log (Debug_processing_standings (length (take 10 rows)) (compCode ep)) s"
  have "process_standings env ep data s = save_standings env (compCode ep) (take 10 rows) ?s1"
    using assms(2,3) by (rule process_standings_sliced)
  moreover have "length (take 10 rows) = min 10 (length rows)" by simp
  moreover have "store ?s1 = store s" "store_calls ?s1 = store_calls s" by simp_all
  ultimately show "fst (process_standings env ep data s) = Inr ()"
    and "docs (store (snd (process_standings env ep data s))) =
        (docs (store s))(STANDINGS_COLLECTION_ID := docs (store s) STANDINGS_COLLECTION_ID @
          map (\<lambda>(i, r). \<lparr>doc_id = i, doc_data = standing_body (compCode ep) r, doc_perms = None\<rparr>)
            (zip [next_id (store s)..<next_id (store s) + min 10 (length rows)] (take 10 rows)))"
    and "store_calls (snd (process_standings env ep data s)) =
        store_calls s @
          map (\<lambda>(i, r). CreateDocument STANDINGS_COLLECTION_ID i (standing_body (compCode ep) r) None)
            (zip [next_id (store s)..<next_id (store s) + min 10 (length rows)] (take 10 rows))"
    using save_standings_complete [OF assms(1,4), of "compCode ep" ?s1] by metis+
qed



lemma fetched_fields [simp]:
  "store (s\<lparr>http_calls := h, requestsMade := n, sink := k\<rparr>) = store s"
  "store_calls (s\<lparr>http_calls := h, requestsMade := n, sink := k\<rparr>) = store_calls s"
  by simp_all



lemma aborting_props:
  "reliable aborting_env" "init_failure aborting_env = None"
  "upstream aborting_env n ''/competitions/PL/standings'' =
     Inr (JObj [(''standings'', JArr [JObj [(''table'', JArr teamless_table)]])])"
  "upstream aborting_env n ''/competitions/CL/standings'' = Inr JNull"
  "upstream aborting_env n ''/competitions/PL/matches?status=FINISHED'' =
     Inr (JObj [(''matches'', JArr unfinished_business)])"
  by (simp_all add: aborting_env_def aborting_upstream_def reliable_def)


subsection \<open>Competitions\<close>

lemma process_competition_reliable:
  assumes "reliable env"
  shows "process_competition env ep data s =
    (if has_doc (store s) COMPETITIONS_COLLECTION_ID ''code'' (compCode ep) then
       (Inr (),
        s\<lparr>store_calls := store_calls s @
             [ListDocuments COMPETITIONS_COLLECTION_ID ''code'' (compCode ep)],
          sink := sink s @ [Debug_skipped_competition (compCode ep)]\<rparr>)
     else if nullish data \<or> nullish (lookup_prop data ''area'') then
       (Inl TypeError,
        s\<lparr>store_calls := store_calls s @
             [ListDocuments COMPETITIONS_COLLECTION_ID ''code'' (compCode ep)],
          store := (store s)\<lparr>next_id := Suc (next_id (store s))\<rparr>\<rparr>)
     else if printable (lookup_prop data ''name'') then
       (Inr (),
        s\<lparr>store_calls := store_calls s @
             [ListDocuments COMPETITIONS_COLLECTION_ID ''code'' (compCode ep),
              CreateDocument COMPETITIONS_COLLECTION_ID (next_id (store s))
                [(''code'', compCode ep), (''name'', lookup_prop data ''name''),
                 (''area_name'', lookup_prop (lookup_prop data ''area'') ''name'')]
                (Some [Permission_read Role_any])],
          store := \<lparr>docs = (docs (store s))
              (COMPETITIONS_COLLECTION_ID := docs (store s) COMPETITIONS_COLLECTION_ID @
                [\<lparr>doc_id = next_id (store s),
                  doc_data = [(''code'', compCode ep), (''name'', lookup_prop data ''name''),
                    (''area_name'', lookup_prop (lookup_prop data ''area'') ''name'')],
                  doc_perms = Some [Permission_read Role_any]\<rparr>]),
            next_id = Suc (next_id (store s))\<rparr>,
          sink := sink s @
            [Debug_saved_competition (compCode ep) (lookup_prop data ''name'')]\<rparr>)
     else
       (Inl TypeError,
        s\<lparr>store_calls := store_calls s @
             [ListDocuments COMPETITIONS_COLLECTION_ID ''code'' (compCode ep),
              CreateDocument COMPETITIONS_COLLECTION_ID (next_id (store s))
                [(''code'', compCode ep), (''name'', lookup_prop data ''name''),
                 (''area_name'', lookup_prop (lookup_prop data ''area'') ''name'')]
                (Some [Permission_read Role_any])],
          store := \<lparr>docs = (docs (store s))
              (COMPETITIONS_COLLECTION_ID := docs (store s) COMPETITIONS_COLLECTION_ID @
                [\<lparr>doc_id = next_id (store s),
                  doc_data = [(''code'', compCode ep), (''name'', lookup_prop data ''name''),
                    (''area_name'', lookup_prop (lookup_prop data ''area'') ''name'')],
                  doc_perms = Some [Permission_read Role_any]\<rparr>]),
            next_id = Suc (next_id (store s))\<rparr>\<rparr>))"
  by (simp add: process_competition_def and_then_def ID_unique_def eval_def log_step_def
      log_template_def context_log_def reliable_listDocuments [OF assms]
      reliable_createDocument [OF assms] competition_data_cases filter_has_doc)

text \<open>
  Claim C7.  With a store that does not fail, for the task \<^verbatim>\<open>/competitions/PL\<close> whose fetch
  returns a body with a name and the name of an area.  When the competitions hold no
  document with code \<^verbatim>\<open>PL\<close> the task creates exactly one document, with the code, the name
  and the name of the area, readable by anyone, after one existence check.  When they hold
  one it leaves the store as it was: the existence check is its only store call.  The task
  completes, unless it has created the document and the name is a value that the message
  of line 113 cannot interpolate (which a string such as \<^verbatim>\<open>Premier League\<close> is not).
\<close>

theorem competition_inserted_if_absent:
  assumes "reliable env"
    and "upstream env (length (http_calls s)) ''/competitions/PL'' =
      Inr (JObj [(''name'', nm), (''area'', JObj [(''name'', ar)])])"
  shows "fst (try_body env ''/competitions/PL'' s) =
      (if has_doc (store s) COMPETITIONS_COLLECTION_ID ''code'' (JStr ''PL'') \<or> printable nm
       then Inr () else Inl TypeError)
    \<and> (\<not> has_doc (store s) COMPETITIONS_COLLECTION_ID ''code'' (JStr ''PL'') \<longrightarrow>
         docs (store (snd (try_body env ''/competitions/PL'' s))) =
           (docs (store s))(COMPETITIONS_COLLECTION_ID :=
             docs (store s) COMPETITIONS_COLLECTION_ID @
               [\<lparr>doc_id = next_id (store s),
                 doc_data = [(''code'', JStr ''PL''), (''name'', nm), (''area_name'', ar)],
                 doc_perms = Some [Permission_read Role_any]\<rparr>])
         \<and> store_calls (snd (try_body env ''/competitions/PL'' s)) =
           store_calls s @
             [ListDocuments COMPETITIONS_COLLECTION_ID ''code'' (JStr ''PL''),
              CreateDocument COMPETITIONS_COLLECTION_ID (next_id (store s))
                [(''code'', JStr ''PL''), (''name'', nm), (''area_name'', ar)]
                (Some [Permission_read Role_any])])
    \<and> (has_doc (store s) COMPETITIONS_COLLECTION_ID ''code'' (JStr ''PL'') \<longrightarrow>
         store (snd (try_body env ''/competitions/PL'' s)) = store s
         \<and> store_calls (snd (try_body env ''/competitions/PL'' s)) =
           store_calls s @ [ListDocuments COMPETITIONS_COLLECTION_ID ''code'' (JStr ''PL'')])"
proof -
  let ?data = "JObj [(''name'', nm), (''area'', JObj [(''name'', ar)])]"
  let ?s1 = "s\<lparr>http_calls := http_calls s @ [(''/competitions/PL'', True)],
       requestsMade := Suc (requestsMade s),
       sink := sink s @ [Debug_api_response ''/competitions/PL'' ?data]\<rparr>"
  have "try_body env ''/competitions/PL'' s = process_competition env ''/competitions/PL'' ?data ?s1"
    using assms(2) by (simp add: try_body_fetched classify_examples)
  then show ?thesis
    by (simp add: process_competition_reliable [OF assms(1)] classify_examples)
qed

theorem competition_inserted_if_absent_witness:
  "reliable sample_env
   \<and> \<not> has_doc empty_database COMPETITIONS_COLLECTION_ID ''code'' (JStr ''PL'')
   \<and> fst (try_body sample_env ''/competitions/PL'' (initial empty_database)) = Inr ()
   \<and> docs (store (snd (try_body sample_env ''/competitions/PL'' (initial empty_database))))
        COMPETITIONS_COLLECTION_ID =
       [\<lparr>doc_id = 0,
         doc_data = [(''code'', JStr ''PL''), (''name'', JStr ''Premier League''),
                     (''area_name'', JStr ''England'')],
         doc_perms = Some [Permission_read Role_any]\<rparr>]
   \<and> has_doc (store (snd (try_body sample_env ''/competitions/PL'' (initial empty_database))))
        COMPETITIONS_COLLECTION_ID ''code'' (JStr ''PL'')
   \<and> store (snd (try_body sample_env ''/competitions/PL''
        (initial (store (snd (try_body sample_env ''/competitions/PL''
          (initial empty_database))))))) =
       store (snd (try_body sample_env ''/competitions/PL'' (initial empty_database)))"
proof -
  let ?ep = "''/competitions/PL''"
  let ?s1 = "snd (try_body sample_env ?ep (initial empty_database))"
  have r: "reliable sample_env" by (simp add: reliable_def sample_env_def)
  have u: "upstream sample_env (length (http_calls s)) ?ep =
      Inr (JObj [(''name'', JStr ''Premier League''),
        (''area'', JObj [(''name'', JStr ''England'')])])" for s
    by (simp add: sample_env_def sample_upstream_def)
  have a: "\<not> has_doc empty_database COMPETITIONS_COLLECTION_ID ''code'' (JStr ''PL'')"
    by (simp add: has_doc_def empty_database_def)
  have 0: "fst (try_body sample_env ?ep (initial empty_database)) = Inr ()"
    using competition_inserted_if_absent [where s = "initial empty_database", OF r u]
    by simp
  have 1: "docs (store ?s1) COMPETITIONS_COLLECTION_ID =
       [\<lparr>doc_id = 0,
         doc_data = [(''code'', JStr ''PL''), (''name'', JStr ''Premier League''),
                     (''area_name'', JStr ''England'')],
         doc_perms = Some [Permission_read Role_any]\<rparr>]"
    using competition_inserted_if_absent [where s = "initial empty_database", OF r u] a
    by (simp add: empty_database_def)
  then have h: "has_doc (store ?s1) COMPETITIONS_COLLECTION_ID ''code'' (JStr ''PL'')"
    by (simp add: has_doc_def)
  have 2: "store (snd (try_body sample_env ?ep (initial (store ?s1)))) = store ?s1"
    using competition_inserted_if_absent [where s = "initial (store ?s1)", OF r u] h
    by simp
  from r a 0 1 h 2 show ?thesis by simp
qed

subsection \<open>Matches\<close>

lemma process_match_reliable:
  assumes "reliable env"
  shows "process_match env code m s =
    (if nullish m then (Inl TypeError, s)
     else if lookup_prop m ''status'' \<noteq> JStr ''FINISHED'' then (Inr (), s)
     else if has_doc (store s) MATCHES_COLLECTION_ID ''match_id'' (lookup_prop m ''id'') then
       (if printable (lookup_prop m ''id'') then
          (Inr (),
           s\<lparr>store_calls := store_calls s @
                [ListDocuments MATCHES_COLLECTION_ID ''match_id'' (lookup_prop m ''id'')],
             sink := sink s @ [Debug_skipped_match (lookup_prop m ''id'') code]\<rparr>)
        else
          (Inl TypeError,
           s\<lparr>store_calls := store_calls s @
                [ListDocuments MATCHES_COLLECTION_ID ''match_id'' (lookup_prop m ''id'')]\<rparr>))
     else if complete_match m then
       (if printable (lookup_prop m ''id'') then
          (Inr (),
           s\<lparr>store_calls := store_calls s @
                [ListDocuments MATCHES_COLLECTION_ID ''match_id'' (lookup_prop m ''id''),
                 CreateDocument MATCHES_COLLECTION_ID (next_id (store s))
                   (match_body (next_id (store s)) code m) (Some [Permission_read Role_any])],
             store := \<lparr>docs = (docs (store s))
                 (MATCHES_COLLECTION_ID := docs (store s) MATCHES_COLLECTION_ID @
                   [\<lparr>doc_id = next_id (store s),
                     doc_data = match_body (next_id (store s)) code m,
                     doc_perms = Some [Permission_read Role_any]\<rparr>]),
               next_id = Suc (next_id (store s))\<rparr>,
             sink := sink s @
               [Debug_saved_match (lookup_prop m ''id'') code (next_id (store s))]\<rparr>)
        else
          (Inl TypeError,
           s\<lparr>store_calls := store_calls s @
                [ListDocuments MATCHES_COLLECTION_ID ''match_id'' (lookup_prop m ''id''),
                 CreateDocument MATCHES_COLLECTION_ID (next_id (store s))
                   (match_body (next_id (store s)) code m) (Some [Permission_read Role_any])],
             store := \<lparr>docs = (docs (store s))
                 (MATCHES_COLLECTION_ID := docs (store s) MATCHES_COLLECTION_ID @
                   [\<lparr>doc_id = next_id (store s),
                     doc_data = match_body (next_id (store s)) code m,
                     doc_perms = Some [Permission_read Role_any]\<rparr>]),
               next_id = Suc (next_id (store s))\<rparr>\<rparr>))
     else
       (Inl TypeError,
        s\<lparr>store_calls := store_calls s @
             [ListDocuments MATCHES_COLLECTION_ID ''match_id'' (lookup_prop m ''id'')],
          store := (store s)\<lparr>next_id := Suc (next_id (store s))\<rparr>\<rparr>))"
  by (simp add: process_match_def and_then_def ID_unique_def eval_def log_step_def
      log_template_def context_log_def reliable_listDocuments [OF assms]
      reliable_createDocument [OF assms]
      match_data_complete match_data_incomplete filter_has_doc get_prop_def)

lemma checked_inserts_append:
  "checked_inserts xs \<Longrightarrow> checked_inserts ys \<Longrightarrow> checked_inserts (xs @ ys)"
proof (induction xs rule: checked_inserts.induct)
  case (2 c f v)
  then show ?case
    by (cases ys rule: checked_inserts.cases) simp_all
qed simp_all

lemma match_body_id [simp]: "map_of (match_body i code m) ''match_id'' = Some (lookup_prop m ''id'')"
  by (simp add: match_body_def)

lemma created_append: "created (xs @ ys) = created xs @ created ys"
  by (induction xs rule: created.induct) simp_all

lemma created_none: "created xs = [] \<Longrightarrow> filter is_list_call xs = xs"
  by (induction xs rule: created.induct) simp_all

lemma has_doc_kept: "only_creates s s' \<Longrightarrow> has_doc (store s) c f v \<Longrightarrow> has_doc (store s') c f v"
  unfolding only_creates_def has_doc_def by (metis Un_iff set_append)

lemma has_doc_appended:
  "has_doc \<lparr>docs = (docs d)(c := docs d c @ [x]), next_id = n\<rparr> c f v \<longleftrightarrow>
     has_doc d c f v \<or> map_of (doc_data x) f = Some v"
  by (auto simp: has_doc_def)

text \<open>One entry: the calls it adds, and the documents.\<close>

lemma process_match_calls:
  assumes "reliable env"
  shows "\<exists>new. store_calls (snd (process_match env code m s)) = store_calls s @ new
      \<and> checked_inserts new
      \<and> filter is_list_call new =
          (if \<not> nullish m \<and> lookup_prop m ''status'' = JStr ''FINISHED''
           then [ListDocuments MATCHES_COLLECTION_ID ''match_id'' (lookup_prop m ''id'')]
           else [])
      \<and> docs (store (snd (process_match env code m s))) =
          (docs (store s))(MATCHES_COLLECTION_ID :=
            docs (store s) MATCHES_COLLECTION_ID @ created new)"
  by (simp add: process_match_reliable [OF assms])

lemma process_match_processable:
  assumes "reliable env" "processable m"
  shows "fst (process_match env code m s) = Inr ()"
  using assms(2) by (simp add: processable_def process_match_reliable [OF assms(1)])

text \<open>
  The loop: its existence checks are those of the finished entries of an initial segment
  of the list, and of all of them when it completes.
\<close>

lemma process_matches_calls:
  assumes "reliable env"
  shows "\<exists>new. store_calls (snd (process_matches env code ms s)) = store_calls s @ new
      \<and> checked_inserts new
      \<and> prefix (filter is_list_call new)
          (map (\<lambda>m. ListDocuments MATCHES_COLLECTION_ID ''match_id'' (lookup_prop m ''id''))
            (filter (\<lambda>m. lookup_prop m ''status'' = JStr ''FINISHED'') ms))
      \<and> (fst (process_matches env code ms s) = Inr () \<longrightarrow>
          filter is_list_call new =
            map (\<lambda>m. ListDocuments MATCHES_COLLECTION_ID ''match_id'' (lookup_prop m ''id''))
              (filter (\<lambda>m. lookup_prop m ''status'' = JStr ''FINISHED'') ms))
      \<and> docs (store (snd (process_matches env code ms s))) =
          (docs (store s))(MATCHES_COLLECTION_ID :=
            docs (store s) MATCHES_COLLECTION_ID @ created new)"
proof (induction ms arbitrary: s)
  case Nil
  show ?case by (intro exI [of _ "[]"]) (simp add: eval_def)
next
  case (Cons m ms)
  let ?E = "\<lambda>ms. map (\<lambda>m. ListDocuments MATCHES_COLLECTION_ID ''match_id'' (lookup_prop m ''id''))
      (filter (\<lambda>m. lookup_prop m ''status'' = JStr ''FINISHED'') ms)"
  let ?e1 = "if \<not> nullish m \<and> lookup_prop m ''status'' = JStr ''FINISHED''
      then [ListDocuments MATCHES_COLLECTION_ID ''match_id'' (lookup_prop m ''id'')] else []"
  obtain r s1 where p: "process_match env code m s = (r, s1)"
    by (cases "process_match env code m s")
  from process_match_calls [OF assms, of code m s] p
  obtain new1 where 1: "store_calls s1 = store_calls s @ new1" "checked_inserts new1"
    "filter is_list_call new1 = ?e1"
    "docs (store s1) = (docs (store s))(MATCHES_COLLECTION_ID :=
        docs (store s) MATCHES_COLLECTION_ID @ created new1)"
    by auto
  show ?case
  proof (cases r)
    case (Inl e)
    with p have step: "process_matches env code (m # ms) s = (Inl e, s1)"
      by (simp add: and_then_def)
    have "prefix (filter is_list_call new1) (?E (m # ms))"
      unfolding 1(3) by simp
    with 1 show ?thesis
      unfolding step by (intro exI [of _ new1]) simp
  next
    case (Inr u)
    with p have step: "process_matches env code (m # ms) s = process_matches env code ms s1"
      by (simp add: and_then_def)
    from Inr p have "\<not> nullish m"
      by (auto simp: process_match_reliable [OF assms] split: if_splits)
    then have e1: "?e1 @ ?E ms = ?E (m # ms)" by simp
    from Cons.IH [of s1]
    obtain new2 where 2: "store_calls (snd (process_matches env code ms s1)) = store_calls s1 @ new2"
      "checked_inserts new2"
      "prefix (filter is_list_call new2) (?E ms)"
      "fst (process_matches env code ms s1) = Inr () \<longrightarrow> filter is_list_call new2 = ?E ms"
      "docs (store (snd (process_matches env code ms s1))) =
        (docs (store s1))(MATCHES_COLLECTION_ID := docs (store s1) MATCHES_COLLECTION_ID @ created new2)"
      by blast
    have a: "store_calls (snd (process_matches env code ms s1)) = store_calls s @ (new1 @ new2)"
      using 1(1) 2(1) by simp
    have b: "checked_inserts (new1 @ new2)"
      using 1(2) 2(2) by (rule checked_inserts_append)
    have "prefix (?e1 @ filter is_list_call new2) (?e1 @ ?E ms)"
      using 2(3) by simp
    then have c: "prefix (filter is_list_call (new1 @ new2)) (?E (m # ms))"
      unfolding e1 by (simp add: 1(3))
    have d: "fst (process_matches env code ms s1) = Inr () \<longrightarrow>
        filter is_list_call (new1 @ new2) = ?E (m # ms)"
      using 2(4) e1 by (simp add: 1(3))
    have e: "docs (store (snd (process_matches env code ms s1))) =
        (docs (store s))(MATCHES_COLLECTION_ID :=
          docs (store s) MATCHES_COLLECTION_ID @ created (new1 @ new2))"
      unfolding 2(5) 1(4) by (simp add: created_append)
    from a b c d e show ?thesis
      unfolding step by (intro exI [of _ "new1 @ new2"]) blast
  qed
qed

lemma process_matches_completes:
  assumes "reliable env" "\<forall>m\<in>set ms. processable m"
  shows "fst (process_matches env code ms s) = Inr ()"
  using assms(2)
proof (induction ms arbitrary: s)
  case Nil
  show ?case by (simp add: eval_def)
next
  case (Cons m ms)
  from Cons.prems have "fst (process_match env code m s) = Inr ()"
    by (simp add: process_match_processable [OF assms(1)])
  then have "process_matches env code (m # ms) s =
      process_matches env code ms (snd (process_match env code m s))"
    by (cases "process_match env code m s") (simp add: and_then_def)
  with Cons.IH [of "snd (process_match env code m s)"] Cons.prems show ?case by simp
qed

text \<open>A match loop that completes leaves every finished entry in the store.\<close>

lemma process_matches_stored:
  assumes "reliable env" "fst (process_matches env code ms s) = Inr ()"
  shows "\<forall>m\<in>set ms. \<not> nullish m
    \<and> (lookup_prop m ''status'' = JStr ''FINISHED'' \<longrightarrow>
         has_doc (store (snd (process_matches env code ms s))) MATCHES_COLLECTION_ID
           ''match_id'' (lookup_prop m ''id''))"
  using assms(2)
proof (induction ms arbitrary: s)
  case Nil
  show ?case by simp
next
  case (Cons m ms)
  let ?s1 = "snd (process_match env code m s)"
  have ok: "fst (process_match env code m s) = Inr ()"
    using Cons.prems
    by (cases "process_match env code m s") (auto simp: and_then_def split: sum.splits)
  then have step: "process_matches env code (m # ms) s = process_matches env code ms ?s1"
    by (cases "process_match env code m s") (simp add: and_then_def)
  with Cons.prems have rest: "fst (process_matches env code ms ?s1) = Inr ()" by simp
  from ok have m: "\<not> nullish m"
    by (auto simp: process_match_reliable [OF assms(1)])
  have "has_doc (store ?s1) MATCHES_COLLECTION_ID ''match_id'' (lookup_prop m ''id'')"
    if "lookup_prop m ''status'' = JStr ''FINISHED''"
    using ok that m
    by (auto simp: process_match_reliable [OF assms(1)] has_doc_def split: if_splits)
  then have "has_doc (store (snd (process_matches env code ms ?s1))) MATCHES_COLLECTION_ID
      ''match_id'' (lookup_prop m ''id'')"
    if "lookup_prop m ''status'' = JStr ''FINISHED''"
    using that has_doc_kept [OF only_creates_process_matches] by blast
  with m Cons.IH [OF rest] show ?case unfolding step by simp
qed

text \<open>A match loop over entries that are all in the store writes nothing.\<close>

lemma process_matches_present:
  assumes "reliable env"
    and "\<forall>m\<in>set ms. \<not> nullish m
      \<and> (lookup_prop m ''status'' = JStr ''FINISHED'' \<longrightarrow>
           has_doc (store s) MATCHES_COLLECTION_ID ''match_id'' (lookup_prop m ''id''))"
  shows "store (snd (process_matches env code ms s)) = store s"
  using assms(2)
proof (induction ms arbitrary: s)
  case Nil
  show ?case by (simp add: eval_def)
next
  case (Cons m ms)
  obtain r s1 where p: "process_match env code m s = (r, s1)"
    by (cases "process_match env code m s")
  with Cons.prems have one: "store s1 = store s"
    by (auto simp: process_match_reliable [OF assms(1)] split: if_splits)
  show ?case
  proof (cases r)
    case (Inl e)
    with p one show ?thesis by (simp add: and_then_def)
  next
    case (Inr u)
    with p have step: "process_matches env code (m # ms) s = process_matches env code ms s1"
      by (simp add: and_then_def)
    from Cons.prems one have "\<forall>m\<in>set ms. \<not> nullish m
        \<and> (lookup_prop m ''status'' = JStr ''FINISHED'' \<longrightarrow>
             has_doc (store s1) MATCHES_COLLECTION_ID ''match_id'' (lookup_prop m ''id''))"
      by simp
    from Cons.IH [OF this] one show ?thesis unfolding step by simp
  qed
qed

text \<open>
  A match loop over entries that can be processed, whose finished entries have distinct
  identifiers of which the store holds none, checks and creates each of them.
\<close>

lemma process_matches_fresh:
  assumes "reliable env"
    and "\<forall>m\<in>set ms. processable m"
    and "distinct (map (\<lambda>m. lookup_prop m ''id'')
          (filter (\<lambda>m. lookup_prop m ''status'' = JStr ''FINISHED'') ms))"
    and "\<forall>m\<in>set ms. lookup_prop m ''status'' = JStr ''FINISHED'' \<longrightarrow>
          \<not> has_doc (store s) MATCHES_COLLECTION_ID ''match_id'' (lookup_prop m ''id'')"
  shows "store_calls (snd (process_matches env code ms s)) =
    store_calls s @ check_and_create (next_id (store s)) code
      (filter (\<lambda>m. lookup_prop m ''status'' = JStr ''FINISHED'') ms)"
  using assms(2-4)
proof (induction ms arbitrary: s)
  case Nil
  show ?case by (simp add: eval_def)
next
  case (Cons m ms)
  from Cons.prems(1) have pm: "processable m" and pms: "\<forall>m\<in>set ms. processable m"
    by simp_all
  show ?case
  proof (cases "lookup_prop m ''status'' = JStr ''FINISHED''")
    case False
    with pm have "process_match env code m s = (Inr (), s)"
      by (simp add: processable_def process_match_reliable [OF assms(1)])
    then have step: "process_matches env code (m # ms) s = process_matches env code ms s"
      by (simp add: and_then_def)
    from Cons.prems False have "distinct (map (\<lambda>m. lookup_prop m ''id'')
          (filter (\<lambda>m. lookup_prop m ''status'' = JStr ''FINISHED'') ms))"
      and "\<forall>m\<in>set ms. lookup_prop m ''status'' = JStr ''FINISHED'' \<longrightarrow>
          \<not> has_doc (store s) MATCHES_COLLECTION_ID ''match_id'' (lookup_prop m ''id'')"
      by simp_all
    from Cons.IH [OF pms this] False show ?thesis unfolding step by simp
  next
    case True
    let ?n = "next_id (store s)"
    let ?s1 = "snd (process_match env code m s)"
    from True pm Cons.prems(3)
    have one: "fst (process_match env code m s) = Inr ()"
      "store_calls ?s1 = store_calls s @
         [ListDocuments MATCHES_COLLECTION_ID ''match_id'' (lookup_prop m ''id''),
          CreateDocument MATCHES_COLLECTION_ID ?n (match_body ?n code m)
            (Some [Permission_read Role_any])]"
      "store ?s1 = \<lparr>docs = (docs (store s))
           (MATCHES_COLLECTION_ID := docs (store s) MATCHES_COLLECTION_ID @
             [\<lparr>doc_id = ?n, doc_data = match_body ?n code m,
               doc_perms = Some [Permission_read Role_any]\<rparr>]),
         next_id = Suc ?n\<rparr>"
      by (simp_all add: processable_def process_match_reliable [OF assms(1)])
    from one(1) have step:
      "process_matches env code (m # ms) s = process_matches env code ms ?s1"
      by (cases "process_match env code m s") (simp add: and_then_def)
    from Cons.prems(2) True have d: "distinct (map (\<lambda>m. lookup_prop m ''id'')
          (filter (\<lambda>m. lookup_prop m ''status'' = JStr ''FINISHED'') ms))"
      and first: "lookup_prop m ''id'' \<notin> (\<lambda>m. lookup_prop m ''id'') `
          set (filter (\<lambda>m. lookup_prop m ''status'' = JStr ''FINISHED'') ms)"
      by simp_all
    have other: "\<forall>m'\<in>set ms. lookup_prop m' ''status'' = JStr ''FINISHED'' \<longrightarrow>
          lookup_prop m' ''id'' \<noteq> lookup_prop m ''id''"
    proof (intro ballI impI notI)
      fix m'
      assume "m' \<in> set ms" "lookup_prop m' ''status'' = JStr ''FINISHED''"
        and e: "lookup_prop m' ''id'' = lookup_prop m ''id''"
      then have "m' \<in> set (filter (\<lambda>m. lookup_prop m ''status'' = JStr ''FINISHED'') ms)"
        by simp
      then have "lookup_prop m' ''id'' \<in> (\<lambda>m. lookup_prop m ''id'') `
          set (filter (\<lambda>m. lookup_prop m ''status'' = JStr ''FINISHED'') ms)"
        by (rule imageI)
      with first e show False by simp
    qed
    from Cons.prems(3) other
    have fresh: "\<forall>m\<in>set ms. lookup_prop m ''status'' = JStr ''FINISHED'' \<longrightarrow>
          \<not> has_doc (store ?s1) MATCHES_COLLECTION_ID ''match_id'' (lookup_prop m ''id'')"
      unfolding one(3) by (auto simp add: has_doc_appended)
    have "next_id (store ?s1) = Suc ?n" unfolding one(3) by simp
    with Cons.IH [OF pms d fresh] True show ?thesis
      unfolding step by (simp add: one(2))
  qed
qed

lemma matches_of_array:
  assumes "\<not> nullish data"
  shows "matches_of data = slice10_or_empty (lookup_prop data ''matches'')"
  using assms by (simp add: matches_of_def on_value_def get_prop_def)


lemma process_match_list_sliced:
  assumes "\<not> nullish data" "lookup_prop data ''matches'' = JArr ms"
  shows "process_match_list env ep data s =
    process_matches env (compCode ep) (take 10 ms)
      (context_log (Debug_processing_matches (length (take 10 ms)) (compCode ep)) s)"
  using assms by (simp add: process_match_list_def matches_of_array)

text \<open>
  Claim C5, as amended.  For a task of Match kind whose fetch returns a body with an array
  of matches, with a store that does not fail.  The first ten entries are taken before the
  status is looked at, and the task goes through them in order until one makes it abort.
  Its store calls are existence checks on \<^verbatim>\<open>match_id\<close> and creations of match documents,
  each creation right after the existence check of its \<^verbatim>\<open>match_id\<close>; the existence checks
  are those of the entries with status \<^verbatim>\<open>FINISHED\<close> of an initial segment of the first ten, in
  their order, one each, and an entry with another status causes no store call; the
  documents added to the matches are those of the creations.  When every one of the first
  ten entries is an object and, if it is finished, has teams and a full-time score and an
  identifier that can be logged, the task completes, every finished entry among the first
  ten is checked, and each of them is in the store afterwards.  If moreover their
  identifiers are distinct and the store held none of them, the calls are a check and a
  creation for each finished entry, in order; if the store held all of them, the calls are
  the checks alone.
\<close>

theorem finished_matches_checked_then_inserted:
  assumes "reliable env"
    and "classify ep = Some Match"
    and "upstream env (length (http_calls s)) ep = Inr data"
    and "\<not> nullish data"
    and "lookup_prop data ''matches'' = JArr ms"
  shows "\<exists>new.
      store_calls (snd (try_body env ep s)) = store_calls s @ new
      \<and> checked_inserts new
      \<and> prefix (filter is_list_call new)
          (map (\<lambda>m. ListDocuments MATCHES_COLLECTION_ID ''match_id'' (lookup_prop m ''id''))
            (filter (\<lambda>m. lookup_prop m ''status'' = JStr ''FINISHED'') (take 10 ms)))
      \<and> docs (store (snd (try_body env ep s))) =
          (docs (store s))(MATCHES_COLLECTION_ID :=
            docs (store s) MATCHES_COLLECTION_ID @ created new)
      \<and> ((\<forall>m\<in>set (take 10 ms). processable m) \<longrightarrow>
          fst (try_body env ep s) = Inr ()
          \<and> filter is_list_call new =
              map (\<lambda>m. ListDocuments MATCHES_COLLECTION_ID ''match_id'' (lookup_prop m ''id''))
                (filter (\<lambda>m. lookup_prop m ''status'' = JStr ''FINISHED'') (take 10 ms))
          \<and> (\<forall>m\<in>set (take 10 ms). lookup_prop m ''status'' = JStr ''FINISHED'' \<longrightarrow>
                has_doc (store (snd (try_body env ep s))) MATCHES_COLLECTION_ID ''match_id''
                  (lookup_prop m ''id''))
          \<and> (distinct (map (\<lambda>m. lookup_prop m ''id'')
                (filter (\<lambda>m. lookup_prop m ''status'' = JStr ''FINISHED'') (take 10 ms)))
              \<and> (\<forall>m\<in>set (take 10 ms). lookup_prop m ''status'' = JStr ''FINISHED'' \<longrightarrow>
                    \<not> has_doc (store s) MATCHES_COLLECTION_ID ''match_id''
                        (lookup_prop m ''id''))
              \<longrightarrow> new = check_and_create (next_id (store s)) (compCode ep)
                    (filter (\<lambda>m. lookup_prop m ''status'' = JStr ''FINISHED'') (take 10 ms)))
          \<and> ((\<forall>m\<in>set (take 10 ms). lookup_prop m ''status'' = JStr ''FINISHED'' \<longrightarrow>
                    has_doc (store s) MATCHES_COLLECTION_ID ''match_id''
                        (lookup_prop m ''id''))
              \<longrightarrow> new =
                  map (\<lambda>m. ListDocuments MATCHES_COLLECTION_ID ''match_id'' (lookup_prop m ''id''))
                    (filter (\<lambda>m. lookup_prop m ''status'' = JStr ''FINISHED'') (take 10 ms))))"
proof -
  let ?s1 = "s\<lparr>http_calls := http_calls s @ [(ep, True)],
       requestsMade := Suc (requestsMade s),
       sink := sink s @ [Debug_api_response ep data]\<rparr>"
  let ?s2 = "context_log (Debug_processing_matches (length (take 10 ms)) (compCode ep)) ?s1"
  let ?fin = "filter (\<lambda>m. lookup_prop m ''status'' = JStr ''FINISHED'') (take 10 ms)"
  let ?E = "map (\<lambda>m. ListDocuments MATCHES_COLLECTION_ID ''match_id'' (lookup_prop m ''id'')) ?fin"
  let ?run = "process_matches env (compCode ep) (take 10 ms) ?s2"
  from assms(4) have "data \<noteq> JUndefined" by auto
  with assms(2,3) have "try_body env ep s = process_match_list env ep data ?s1"
    by (simp add: try_body_fetched)
  then have tb: "try_body env ep s = ?run"
    by (simp add: process_match_list_sliced [OF assms(4,5)])
  have s2: "store_calls ?s2 = store_calls s" "store ?s2 = store s" by simp_all
  from process_matches_calls [OF assms(1), of "compCode ep" "take 10 ms" ?s2]
  obtain new where new: "store_calls (snd ?run) = store_calls s @ new"
    "checked_inserts new"
    "prefix (filter is_list_call new) ?E"
    "fst ?run = Inr () \<longrightarrow> filter is_list_call new = ?E"
    "docs (store (snd ?run)) =
      (docs (store s))(MATCHES_COLLECTION_ID := docs (store s) MATCHES_COLLECTION_ID @ created new)"
    unfolding s2 by blast
  have rest: "fst ?run = Inr ()
      \<and> filter is_list_call new = ?E
      \<and> (\<forall>m\<in>set (take 10 ms). lookup_prop m ''status'' = JStr ''FINISHED'' \<longrightarrow>
            has_doc (store (snd ?run)) MATCHES_COLLECTION_ID ''match_id'' (lookup_prop m ''id''))
      \<and> (distinct (map (\<lambda>m. lookup_prop m ''id'') ?fin)
          \<and> (\<forall>m\<in>set (take 10 ms). lookup_prop m ''status'' = JStr ''FINISHED'' \<longrightarrow>
                \<not> has_doc (store s) MATCHES_COLLECTION_ID ''match_id'' (lookup_prop m ''id''))
          \<longrightarrow> new = check_and_create (next_id (store s)) (compCode ep) ?fin)
      \<and> ((\<forall>m\<in>set (take 10 ms). lookup_prop m ''status'' = JStr ''FINISHED'' \<longrightarrow>
                has_doc (store s) MATCHES_COLLECTION_ID ''match_id'' (lookup_prop m ''id''))
          \<longrightarrow> new = ?E)"
    if p: "\<forall>m\<in>set (take 10 ms). processable m"
  proof -
    have ok: "fst ?run = Inr ()"
      using assms(1) p by (rule process_matches_completes)
    with new(4) have checks: "filter is_list_call new = ?E" by simp
    from process_matches_stored [OF assms(1) ok]
    have stored: "\<forall>m\<in>set (take 10 ms). lookup_prop m ''status'' = JStr ''FINISHED'' \<longrightarrow>
        has_doc (store (snd ?run)) MATCHES_COLLECTION_ID ''match_id'' (lookup_prop m ''id'')"
      by blast
    have fresh: "new = check_and_create (next_id (store s)) (compCode ep) ?fin"
      if "distinct (map (\<lambda>m. lookup_prop m ''id'') ?fin)"
        and "\<forall>m\<in>set (take 10 ms). lookup_prop m ''status'' = JStr ''FINISHED'' \<longrightarrow>
          \<not> has_doc (store s) MATCHES_COLLECTION_ID ''match_id'' (lookup_prop m ''id'')"
    proof -
      from that(2) have "\<forall>m\<in>set (take 10 ms). lookup_prop m ''status'' = JStr ''FINISHED'' \<longrightarrow>
          \<not> has_doc (store ?s2) MATCHES_COLLECTION_ID ''match_id'' (lookup_prop m ''id'')"
        unfolding s2 .
      from process_matches_fresh [OF assms(1) p that(1) this, of "compCode ep"]
      have "store_calls (snd ?run) =
          store_calls s @ check_and_create (next_id (store s)) (compCode ep) ?fin"
        unfolding s2 .
      with new(1) show ?thesis by simp
    qed
    have present: "new = ?E"
      if h: "\<forall>m\<in>set (take 10 ms). lookup_prop m ''status'' = JStr ''FINISHED'' \<longrightarrow>
          has_doc (store s) MATCHES_COLLECTION_ID ''match_id'' (lookup_prop m ''id'')"
    proof -
      from p have "\<forall>m\<in>set (take 10 ms). \<not> nullish m" by (simp add: processable_def)
      with h have "\<forall>m\<in>set (take 10 ms). \<not> nullish m
          \<and> (lookup_prop m ''status'' = JStr ''FINISHED'' \<longrightarrow>
            has_doc (store ?s2) MATCHES_COLLECTION_ID ''match_id'' (lookup_prop m ''id''))"
        unfolding s2 by blast
      from process_matches_present [OF assms(1) this, of "compCode ep"]
      have "store (snd ?run) = store s" unfolding s2 .
      with new(5) have "docs (store s) = (docs (store s))(MATCHES_COLLECTION_ID :=
          docs (store s) MATCHES_COLLECTION_ID @ created new)"
        by simp
      then have "docs (store s) MATCHES_COLLECTION_ID =
          docs (store s) MATCHES_COLLECTION_ID @ created new"
        by (metis fun_upd_same)
      then have "created new = []" by simp
      then have "filter is_list_call new = new" by (rule created_none)
      with checks show ?thesis by simp
    qed
    from ok checks stored fresh present show ?thesis by blast
  qed
  from new(1,2,3,5) rest show ?thesis
    unfolding tb by (intro exI [of _ new]) blast
qed

lemma match_entry_props [simp]:
  "\<not> nullish (match_entry k st)"
  "complete_match (match_entry k st)"
  "lookup_prop (match_entry k st) ''status'' = JStr st"
  "lookup_prop (match_entry k st) ''id'' = JNum k"
  "processable (match_entry k st)"
  by (simp_all add: match_entry_def complete_match_def processable_def)

text \<open>
  The scenario of the specification: eleven entries, the first and the third finished.
  On an empty store the task makes two existence checks and creates two documents.
\<close>

theorem finished_matches_checked_then_inserted_witness:
  "reliable sample_env
   \<and> classify ''/competitions/PL/matches?status=FINISHED'' = Some Match
   \<and> fst (try_body sample_env ''/competitions/PL/matches?status=FINISHED''
        (initial empty_database)) = Inr ()
   \<and> store_calls (snd (try_body sample_env
        ''/competitions/PL/matches?status=FINISHED'' (initial empty_database))) =
       [ListDocuments MATCHES_COLLECTION_ID ''match_id'' (JNum 1),
        CreateDocument MATCHES_COLLECTION_ID 0
          (match_body 0 (JStr ''PL'') (match_entry 1 ''FINISHED''))
          (Some [Permission_read Role_any]),
        ListDocuments MATCHES_COLLECTION_ID ''match_id'' (JNum 3),
        CreateDocument MATCHES_COLLECTION_ID 1
          (match_body 1 (JStr ''PL'') (match_entry 3 ''FINISHED''))
          (Some [Permission_read Role_any])]
   \<and> map (\<lambda>d. map_of (doc_data d) ''match_id'') (docs (store (snd (try_body sample_env
        ''/competitions/PL/matches?status=FINISHED'' (initial empty_database))))
        MATCHES_COLLECTION_ID) = [Some (JNum 1), Some (JNum 3)]"
proof -
  let ?ep = "''/competitions/PL/matches?status=FINISHED''"
  let ?ms = "[match_entry 1 ''FINISHED'', match_entry 2 ''SCHEDULED'',
              match_entry 3 ''FINISHED'', match_entry 4 ''SCHEDULED'',
              match_entry 5 ''SCHEDULED'', match_entry 6 ''SCHEDULED'',
              match_entry 7 ''SCHEDULED'', match_entry 8 ''SCHEDULED'',
              match_entry 9 ''SCHEDULED'', match_entry 10 ''SCHEDULED'',
              match_entry 11 ''SCHEDULED'']"
  let ?data = "JObj [(''matches'', JArr ?ms)]"
  let ?s0 = "initial empty_database"
  let ?calls = "[ListDocuments MATCHES_COLLECTION_ID ''match_id'' (JNum 1),
        CreateDocument MATCHES_COLLECTION_ID 0
          (match_body 0 (JStr ''PL'') (match_entry 1 ''FINISHED''))
          (Some [Permission_read Role_any]),
        ListDocuments MATCHES_COLLECTION_ID ''match_id'' (JNum 3),
        CreateDocument MATCHES_COLLECTION_ID 1
          (match_body 1 (JStr ''PL'') (match_entry 3 ''FINISHED''))
          (Some [Permission_read Role_any])]"
  have r: "reliable sample_env" by (simp add: reliable_def sample_env_def)
  have k: "classify ?ep = Some Match" by (simp add: classify_examples)
  have u: "upstream sample_env (length (http_calls ?s0)) ?ep = Inr ?data"
    by (simp add: sample_env_def sample_upstream_def)
  have n: "\<not> nullish ?data" by simp
  have a: "lookup_prop ?data ''matches'' = JArr ?ms" by simp
  have p: "\<forall>m\<in>set (take 10 ?ms). processable m" by simp
  have d: "distinct (map (\<lambda>m. lookup_prop m ''id'')
      (filter (\<lambda>m. lookup_prop m ''status'' = JStr ''FINISHED'') (take 10 ?ms)))"
    by simp
  have f: "\<forall>m\<in>set (take 10 ?ms). lookup_prop m ''status'' = JStr ''FINISHED'' \<longrightarrow>
      \<not> has_doc (store ?s0) MATCHES_COLLECTION_ID ''match_id'' (lookup_prop m ''id'')"
    by (simp add: has_doc_def empty_database_def)
  have c: "check_and_create (next_id (store ?s0)) (compCode ?ep)
      (filter (\<lambda>m. lookup_prop m ''status'' = JStr ''FINISHED'') (take 10 ?ms)) = ?calls"
    by (simp add: classify_examples empty_database_def)
  from finished_matches_checked_then_inserted [OF r k u n a] p d f
  obtain new where new: "store_calls (snd (try_body sample_env ?ep ?s0)) = store_calls ?s0 @ new"
    "docs (store (snd (try_body sample_env ?ep ?s0))) =
      (docs (store ?s0))(MATCHES_COLLECTION_ID := docs (store ?s0) MATCHES_COLLECTION_ID @ created new)"
    "fst (try_body sample_env ?ep ?s0) = Inr ()"
    "new = check_and_create (next_id (store ?s0)) (compCode ?ep)
      (filter (\<lambda>m. lookup_prop m ''status'' = JStr ''FINISHED'') (take 10 ?ms))"
    by blast
  from new(4) c have e: "new = ?calls" by (rule trans)
  have 1: "store_calls (snd (try_body sample_env ?ep ?s0)) = ?calls"
    using new(1) e by simp
  have 2: "map (\<lambda>d. map_of (doc_data d) ''match_id'')
      (docs (store (snd (try_body sample_env ?ep ?s0))) MATCHES_COLLECTION_ID)
      = [Some (JNum 1), Some (JNum 3)]"
    unfolding new(2) e by (simp add: empty_database_def)
  from r k new(3) 1 2 show ?thesis by simp
qed

text \<open>
  Three finished entries of which the first has no teams: after the existence check of
  the first the task aborts with a TypeError, so the second and the third entry, finished
  and among the first ten, get neither a check nor an insert.
\<close>

theorem later_matches_unattempted_counterexample:
  "reliable aborting_env
   \<and> classify ''/competitions/PL/matches?status=FINISHED'' = Some Match
   \<and> upstream aborting_env 0 ''/competitions/PL/matches?status=FINISHED'' =
       Inr (JObj [(''matches'', JArr unfinished_business)])
   \<and> length (filter (\<lambda>m. lookup_prop m ''status'' = JStr ''FINISHED'')
        (take 10 unfinished_business)) = 3
   \<and> fst (try_body aborting_env ''/competitions/PL/matches?status=FINISHED''
        (initial empty_database)) = Inl TypeError
   \<and> store_calls (snd (try_body aborting_env ''/competitions/PL/matches?status=FINISHED''
        (initial empty_database))) = [ListDocuments MATCHES_COLLECTION_ID ''match_id'' (JNum 1)]
   \<and> docs (store (snd (try_body aborting_env ''/competitions/PL/matches?status=FINISHED''
        (initial empty_database)))) MATCHES_COLLECTION_ID = []"
proof -
  let ?ep = "''/competitions/PL/matches?status=FINISHED''"
  let ?data = "JObj [(''matches'', JArr unfinished_business)]"
  let ?first = "JObj [(''id'', JNum 1), (''status'', JStr ''FINISHED'')]"
  have n: "\<not> nullish ?data" by simp
  have a: "lookup_prop ?data ''matches'' = JArr unfinished_business" by simp
  have "\<exists>s1. try_body aborting_env ?ep (initial empty_database) =
        process_matches aborting_env (JStr ''PL'') (take 10 unfinished_business) s1
      \<and> store s1 = empty_database \<and> store_calls s1 = []"
    by (simp add: try_body_fetched aborting_props classify_examples
        process_match_list_sliced [OF n a])
      (rule exI, intro conjI, rule refl, simp_all)
  then obtain s1 where s1: "try_body aborting_env ?ep (initial empty_database) =
        process_matches aborting_env (JStr ''PL'') (take 10 unfinished_business) s1"
    "store s1 = empty_database" "store_calls s1 = []"
    by blast
  have first: "\<not> nullish ?first" "lookup_prop ?first ''status'' = JStr ''FINISHED''"
    "lookup_prop ?first ''id'' = JNum 1" "\<not> complete_match ?first"
    by (simp_all add: complete_match_def)
  have 1: "fst (try_body aborting_env ?ep (initial empty_database)) = Inl TypeError
    \<and> store_calls (snd (try_body aborting_env ?ep (initial empty_database))) =
        [ListDocuments MATCHES_COLLECTION_ID ''match_id'' (JNum 1)]
    \<and> docs (store (snd (try_body aborting_env ?ep (initial empty_database))))
        MATCHES_COLLECTION_ID = []"
    unfolding s1(1)
    by (simp add: unfinished_business_def and_then_def
        process_match_reliable [OF aborting_props(1)] first s1 has_doc_def empty_database_def)
  have 2: "length (filter (\<lambda>m. lookup_prop m ''status'' = JStr ''FINISHED'')
        (take 10 unfinished_business)) = 3"
    by (simp add: unfinished_business_def)
  from aborting_props(1,5) 1 2 show ?thesis by (simp add: classify_examples)
qed

text \<open>
  One run of the competition task on the empty store: the document it creates is readable
  by anyone.
\<close>

theorem documents_only_created_witness:
  "map doc_perms (docs (store (snd (handler_with sample_env maxRequests_default
      [competition_task] empty_database))) COMPETITIONS_COLLECTION_ID)
     = [Some [Permission_read Role_any]]
   \<and> (\<exists>cs. docs (store (snd (handler_with sample_env maxRequests_default
          [competition_task] empty_database))) COMPETITIONS_COLLECTION_ID = cs
        \<and> cs \<noteq> [] \<and> list_all (\<lambda>x. doc_perms x = Some [Permission_read Role_any]) cs)"
proof -
  let ?s = "snd (handler_with sample_env maxRequests_default [competition_task] empty_database)"
  let ?data = "JObj [(''name'', JStr ''Premier League''),
        (''area'', JObj [(''name'', JStr ''England'')])]"
  have r: "reliable sample_env" by (simp add: reliable_def sample_env_def)
  have i: "init_failure sample_env = None" by (simp add: sample_env_def)
  have u: "upstream sample_env n ''/competitions/PL'' = Inr ?data" for n
    by (simp add: sample_env_def sample_upstream_def)
  have e: "docs (store ?s) COMPETITIONS_COLLECTION_ID =
      [\<lparr>doc_id = 0,
        doc_data = [(''code'', JStr ''PL''), (''name'', JStr ''Premier League''),
                    (''area_name'', JStr ''England'')],
        doc_perms = Some [Permission_read Role_any]\<rparr>]"
    by (simp add: handler_with_state(1) [OF i] maxRequests_default_def competition_task_def
        run_task_def try_body_fetched [OF u] classify_examples
        process_competition_reliable [OF r] has_doc_def empty_database_def)
  have "\<exists>cs. docs (store ?s) COMPETITIONS_COLLECTION_ID
       = docs empty_database COMPETITIONS_COLLECTION_ID @ cs
     \<and> (\<forall>x\<in>set cs. doc_perms x = Some [Permission_read Role_any])"
    using documents_only_created
      [of sample_env maxRequests_default "[competition_task]" empty_database]
    by blast
  then have "list_all (\<lambda>x. doc_perms x = Some [Permission_read Role_any])
      (docs (store ?s) COMPETITIONS_COLLECTION_ID)"
    by (auto simp add: empty_database_def list_all_iff)
  with e show ?thesis by simp
qed

section \<open>A second run\<close>

lemma save_standings_again:
  assumes "reliable env"
  shows "\<exists>n1 n2.
    docs (store (snd (save_standings env code rows a))) =
      (docs (store a))(STANDINGS_COLLECTION_ID := docs (store a) STANDINGS_COLLECTION_ID @ n1)
    \<and> docs (store (snd (save_standings env code rows b))) =
      (docs (store b))(STANDINGS_COLLECTION_ID := docs (store b) STANDINGS_COLLECTION_ID @ n2)
    \<and> map doc_data n1 = map doc_data n2"
proof (induction rows arbitrary: a b)
  case Nil
  show ?case
    by (rule exI [of _ "[]"], rule exI [of _ "[]"]) (simp add: eval_def)
next
  case (Cons r rows)
  show ?case
  proof (cases "complete_standing r")
    case False
    then show ?thesis
      by (intro exI [of _ "[]"]) (simp add: and_then_def save_standing_reliable [OF assms])
  next
    case complete: True
    let ?a1 = "snd (save_standing env code r a)" and ?b1 = "snd (save_standing env code r b)"
    let ?da = "\<lparr>doc_id = next_id (store a), doc_data = standing_body code r, doc_perms = None\<rparr>"
    let ?db = "\<lparr>doc_id = next_id (store b), doc_data = standing_body code r, doc_perms = None\<rparr>"
    have one: "docs (store ?a1) = (docs (store a))(STANDINGS_COLLECTION_ID :=
          docs (store a) STANDINGS_COLLECTION_ID @ [?da])"
      "docs (store ?b1) = (docs (store b))(STANDINGS_COLLECTION_ID :=
          docs (store b) STANDINGS_COLLECTION_ID @ [?db])"
      using complete by (simp_all add: save_standing_reliable [OF assms])
    show ?thesis
    proof (cases "loggable_standing r")
    case False
    with complete have "save_standings env code (r # rows) a = (Inl TypeError, ?a1)"
      "save_standings env code (r # rows) b = (Inl TypeError, ?b1)"
      by (simp_all add: and_then_def save_standing_reliable [OF assms])
    with one have "docs (store (snd (save_standings env code (r # rows) a))) =
        (docs (store a))(STANDINGS_COLLECTION_ID :=
          docs (store a) STANDINGS_COLLECTION_ID @ [?da])"
      "docs (store (snd (save_standings env code (r # rows) b))) =
        (docs (store b))(STANDINGS_COLLECTION_ID :=
          docs (store b) STANDINGS_COLLECTION_ID @ [?db])"
      by simp_all
    moreover have "map doc_data [?da] = map doc_data [?db]" by simp
    ultimately show ?thesis by blast
    next
    case True
    have step: "save_standings env code (r # rows) a = save_standings env code rows ?a1"
      "save_standings env code (r # rows) b = save_standings env code rows ?b1"
      using complete True by (simp_all add: and_then_def save_standing_reliable [OF assms])
    from Cons.IH [of ?a1 ?b1] obtain n1 n2 where
      ih: "docs (store (snd (save_standings env code rows ?a1))) =
        (docs (store ?a1))(STANDINGS_COLLECTION_ID := docs (store ?a1) STANDINGS_COLLECTION_ID @ n1)"
      "docs (store (snd (save_standings env code rows ?b1))) =
        (docs (store ?b1))(STANDINGS_COLLECTION_ID := docs (store ?b1) STANDINGS_COLLECTION_ID @ n2)"
      "map doc_data n1 = map doc_data n2"
      by blast
    have "docs (store (snd (save_standings env code (r # rows) a))) =
        (docs (store a))(STANDINGS_COLLECTION_ID :=
          docs (store a) STANDINGS_COLLECTION_ID @ (?da # n1))"
      unfolding step ih(1) one by simp
    moreover have "docs (store (snd (save_standings env code (r # rows) b))) =
        (docs (store b))(STANDINGS_COLLECTION_ID :=
          docs (store b) STANDINGS_COLLECTION_ID @ (?db # n2))"
      unfolding step ih(2) one by simp
    moreover have "map doc_data (?da # n1) = map doc_data (?db # n2)"
      using ih(3) by simp
    ultimately show ?thesis by blast
    qed
  qed
qed

lemma process_standings_again:
  assumes "reliable env"
  shows "\<exists>n1 n2.
    docs (store (snd (process_standings env ep data a))) =
      (docs (store a))(STANDINGS_COLLECTION_ID := docs (store a) STANDINGS_COLLECTION_ID @ n1)
    \<and> docs (store (snd (process_standings env ep data b))) =
      (docs (store b))(STANDINGS_COLLECTION_ID := docs (store b) STANDINGS_COLLECTION_ID @ n2)
    \<and> map doc_data n1 = map doc_data n2"
proof (cases "standings_of data")
  case (Inl e)
  then show ?thesis
    by (intro exI [of _ "[]"]) (simp add: process_standings_def)
next
  case (Inr rows)
  let ?l = "Debug_processing_standings (length rows) (compCode ep)"
  have "process_standings env ep data a = save_standings env (compCode ep) rows (context_log ?l a)"
    "process_standings env ep data b = save_standings env (compCode ep) rows (context_log ?l b)"
    using Inr by (simp_all add: process_standings_def)
  with save_standings_again [OF assms, of "compCode ep" rows "context_log ?l a" "context_log ?l b"]
  show ?thesis by simp
qed


lemma process_matches_other:
  assumes "reliable env" "c \<noteq> MATCHES_COLLECTION_ID"
  shows "docs (store (snd (process_matches env code ms s))) c = docs (store s) c"
proof (induction ms arbitrary: s)
  case Nil
  show ?case by (simp add: eval_def)
next
  case (Cons m ms)
  have one: "docs (store (snd (process_match env code m s))) c = docs (store s) c"
    using assms(2) by (simp add: process_match_reliable [OF assms(1)])
  show ?case
  proof (cases "process_match env code m s")
    case (Pair r s1)
    with one Cons.IH [of s1] show ?thesis
      by (cases r) (simp_all add: and_then_def)
  qed
qed

lemma process_match_list_cases:
  "process_match_list env ep data s =
    (case matches_of data of
       Inl e \<Rightarrow> (Inl e, s)
     | Inr ms \<Rightarrow> process_matches env (compCode ep) ms
         (context_log (Debug_processing_matches (length ms) (compCode ep)) s))"
  by (simp add: process_match_list_def split: sum.splits)


lemma process_competition_stored:
  assumes "reliable env" "\<not> nullish data" "\<not> nullish (lookup_prop data ''area'')"
  shows "has_doc (store (snd (process_competition env ep data s))) COMPETITIONS_COLLECTION_ID
    ''code'' (compCode ep)"
  using assms(2,3) by (simp add: process_competition_reliable [OF assms(1)] has_doc_def)

lemma process_competition_present:
  assumes "reliable env"
    and "has_doc (store s) COMPETITIONS_COLLECTION_ID ''code'' (compCode ep)
      \<or> nullish data \<or> nullish (lookup_prop data ''area'')"
  shows "docs (store (snd (process_competition env ep data s))) = docs (store s)"
  using assms(2) by (auto simp add: process_competition_reliable [OF assms(1)])

lemma process_competition_other:
  assumes "reliable env" "c \<noteq> COMPETITIONS_COLLECTION_ID"
  shows "docs (store (snd (process_competition env ep data s))) c = docs (store s) c"
  using assms(2) by (simp add: process_competition_reliable [OF assms(1)])

lemma second_pass_same [simp]: "second_pass a a b b"
  unfolding second_pass_def by simp

lemma second_pass_trans:
  assumes "second_pass a a' b b'" "second_pass a' a'' b' b''"
  shows "second_pass a a'' b b''"
proof -
  from assms(1) obtain n1 n2 where 1:
    "docs a' STANDINGS_COLLECTION_ID = docs a STANDINGS_COLLECTION_ID @ n1"
    "docs b' STANDINGS_COLLECTION_ID = docs b STANDINGS_COLLECTION_ID @ n2"
    "map doc_data n1 = map doc_data n2"
    unfolding second_pass_def by blast
  from assms(2) obtain m1 m2 where 2:
    "docs a'' STANDINGS_COLLECTION_ID = docs a' STANDINGS_COLLECTION_ID @ m1"
    "docs b'' STANDINGS_COLLECTION_ID = docs b' STANDINGS_COLLECTION_ID @ m2"
    "map doc_data m1 = map doc_data m2"
    unfolding second_pass_def by blast
  have "docs a'' STANDINGS_COLLECTION_ID = docs a STANDINGS_COLLECTION_ID @ (n1 @ m1)"
    "docs b'' STANDINGS_COLLECTION_ID = docs b STANDINGS_COLLECTION_ID @ (n2 @ m2)"
    "map doc_data (n1 @ m1) = map doc_data (n2 @ m2)"
    using 1 2 by simp_all
  then have "\<exists>k1 k2. docs a'' STANDINGS_COLLECTION_ID = docs a STANDINGS_COLLECTION_ID @ k1
      \<and> docs b'' STANDINGS_COLLECTION_ID = docs b STANDINGS_COLLECTION_ID @ k2
      \<and> map doc_data k1 = map doc_data k2"
    by blast
  with assms show ?thesis unfolding second_pass_def by simp
qed

lemma second_pass_quiet:
  assumes "docs a' STANDINGS_COLLECTION_ID = docs a STANDINGS_COLLECTION_ID"
    and "docs b' = docs b"
  shows "second_pass a a' b b'"
  unfolding second_pass_def using assms by simp

text \<open>
  One pass through the body of the \<^verbatim>\<open>try\<close>, in a first run from \<open>a\<close> and again from a
  store \<open>b\<close> that already holds whatever the first run leaves behind.
\<close>

lemma try_body_again:
  assumes r: "reliable env"
    and h: "http_calls a = http_calls b"
    and f: "classify ep = Some Match \<and> \<not> isl (upstream env (length (http_calls a)) ep)
      \<longrightarrow> fst (try_body env ep a) = Inr ()"
    and k: "\<And>c f v. has_doc (store (snd (try_body env ep a))) c f v \<Longrightarrow> has_doc (store b) c f v"
  shows "second_pass (store a) (store (snd (try_body env ep a)))
    (store b) (store (snd (try_body env ep b)))"
proof (cases "upstream env (length (http_calls a)) ep")
  case (Inl msg)
  with h show ?thesis
    by (simp add: try_body_def and_then_def axios_get_def)
next
  case (Inr data)
  show ?thesis
  proof (cases "data = JUndefined")
    case True
    with Inr h show ?thesis
      by (simp add: try_body_def and_then_def axios_get_def increment_requestsMade_def
          log_api_response_def)
  next
    case False
    let ?a = "a\<lparr>http_calls := http_calls a @ [(ep, True)],
       requestsMade := Suc (requestsMade a),
       sink := sink a @ [Debug_api_response ep data]\<rparr>"
    let ?b = "b\<lparr>http_calls := http_calls b @ [(ep, True)],
       requestsMade := Suc (requestsMade b),
       sink := sink b @ [Debug_api_response ep data]\<rparr>"
    note ta = try_body_fetched [OF Inr False]
    from Inr h have "upstream env (length (http_calls b)) ep = Inr data" by simp
    note tb = try_body_fetched [OF this False]
    show ?thesis
    proof (cases "classify ep")
      case None
      then show ?thesis by (simp add: ta tb eval_def)
    next
      case (Some kd)
      show ?thesis
      proof (cases kd)
        case Standing
        from process_standings_again [OF r, of ep data ?a ?b] obtain n1 n2 where
          "docs (store (snd (process_standings env ep data ?a))) =
            (docs (store a))(STANDINGS_COLLECTION_ID := docs (store a) STANDINGS_COLLECTION_ID @ n1)"
          "docs (store (snd (process_standings env ep data ?b))) =
            (docs (store b))(STANDINGS_COLLECTION_ID := docs (store b) STANDINGS_COLLECTION_ID @ n2)"
          "map doc_data n1 = map doc_data n2"
          by auto
        then show ?thesis
          unfolding second_pass_def by (simp add: ta tb Some Standing)
      next
        case Competition
        have a: "docs (store (snd (process_competition env ep data ?a))) STANDINGS_COLLECTION_ID
            = docs (store a) STANDINGS_COLLECTION_ID"
          by (simp add: process_competition_other [OF r])
        have "has_doc (store ?b) COMPETITIONS_COLLECTION_ID ''code'' (compCode ep)
            \<or> nullish data \<or> nullish (lookup_prop data ''area'')"
          using process_competition_stored [OF r, of data ep ?a] k [of COMPETITIONS_COLLECTION_ID
              "''code''" "compCode ep"]
          by (auto simp add: ta Some Competition)
        from process_competition_present [OF r this]
        have b: "docs (store (snd (process_competition env ep data ?b))) = docs (store b)"
          by simp
        from a b show ?thesis
          by (simp add: ta tb Some Competition second_pass_quiet)
      next
        case Match
        from f Inr Some Match have ok: "fst (process_match_list env ep data ?a) = Inr ()"
          by (simp add: ta)
        then obtain ms where ms: "matches_of data = Inr ms"
          by (cases "matches_of data") (simp_all add: process_match_list_cases)
        let ?l = "Debug_processing_matches (length ms) (compCode ep)"
        have pa: "process_match_list env ep data ?a =
            process_matches env (compCode ep) ms (context_log ?l ?a)"
          and pb: "process_match_list env ep data ?b =
            process_matches env (compCode ep) ms (context_log ?l ?b)"
          by (simp_all add: process_match_list_cases ms)
        from ok have "fst (process_matches env (compCode ep) ms (context_log ?l ?a)) = Inr ()"
          by (simp add: pa)
        from process_matches_stored [OF r this]
        have "\<forall>m\<in>set ms. \<not> nullish m
          \<and> (lookup_prop m ''status'' = JStr ''FINISHED'' \<longrightarrow>
              has_doc (store (snd (try_body env ep a))) MATCHES_COLLECTION_ID
                ''match_id'' (lookup_prop m ''id''))"
          by (simp add: ta Some Match pa)
        with k have "\<forall>m\<in>set ms. \<not> nullish m
          \<and> (lookup_prop m ''status'' = JStr ''FINISHED'' \<longrightarrow>
              has_doc (store (context_log ?l ?b)) MATCHES_COLLECTION_ID
                ''match_id'' (lookup_prop m ''id''))"
          by simp
        from process_matches_present [OF r this]
        have b: "docs (store (snd (process_match_list env ep data ?b))) = docs (store b)"
          by (simp add: pb)
        have a: "docs (store (snd (process_match_list env ep data ?a))) STANDINGS_COLLECTION_ID
            = docs (store a) STANDINGS_COLLECTION_ID"
          by (simp add: pa process_matches_other [OF r])
        from a b show ?thesis
          by (simp add: ta tb Some Match second_pass_quiet)
      qed
    qed
  qed
qed


lemma run_task_store:
  "store (run_task env t s) =
     store (snd (try_body env (endpoint t) (context_log (Debug_processing_task (endpoint t)) s)))"
  by (simp add: run_task_def split: prod.splits sum.splits)

lemma run_task_again:
  assumes r: "reliable env"
    and h: "http_calls a = http_calls b"
    and f: "classify (endpoint t) = Some Match
        \<and> \<not> isl (upstream env (length (http_calls a)) (endpoint t))
      \<longrightarrow> fst (try_body env (endpoint t)
            (context_log (Debug_processing_task (endpoint t)) a)) = Inr ()"
    and k: "\<And>c f v. has_doc (store (run_task env t a)) c f v \<Longrightarrow> has_doc (store b) c f v"
  shows "second_pass (store a) (store (run_task env t a)) (store b) (store (run_task env t b))"
  using try_body_again [OF r, of "context_log (Debug_processing_task (endpoint t)) a"
      "context_log (Debug_processing_task (endpoint t)) b" "endpoint t"] h f k
  by (simp add: run_task_store)

lemma run_tasks_again:
  assumes r: "reliable env"
  shows "http_calls a = http_calls b \<Longrightarrow> requestsMade a = requestsMade b
    \<Longrightarrow> match_tasks_complete env m ts a
    \<Longrightarrow> (\<And>c f v. has_doc (store (run_tasks env m ts a)) c f v \<Longrightarrow> has_doc (store b) c f v)
    \<Longrightarrow> second_pass (store a) (store (run_tasks env m ts a))
          (store b) (store (run_tasks env m ts b))"
proof (induction ts arbitrary: a b)
  case Nil
  show ?case by simp
next
  case (Cons t ts)
  show ?case
  proof (cases "m \<le> requestsMade a")
    case True
    with Cons.prems(2) show ?thesis by simp
  next
    case False
    let ?a1 = "run_task env t a" and ?b1 = "run_task env t b"
    from False Cons.prems(2) have nb: "\<not> m \<le> requestsMade b" by simp
    have ra: "run_tasks env m (t # ts) a = run_tasks env m ts ?a1"
      and rb: "run_tasks env m (t # ts) b = run_tasks env m ts ?b1"
      using False nb by simp_all
    from Cons.prems(3) False have f: "classify (endpoint t) = Some Match
        \<and> \<not> isl (upstream env (length (http_calls a)) (endpoint t))
      \<longrightarrow> fst (try_body env (endpoint t)
            (context_log (Debug_processing_task (endpoint t)) a)) = Inr ()"
      and c1: "match_tasks_complete env m ts ?a1"
      by simp_all
    have k0: "has_doc (store b) c f v" if "has_doc (store ?a1) c f v" for c f v
      using Cons.prems(4) [of c f v] has_doc_kept [OF only_creates_run_tasks that, of env m ts]
      unfolding ra by simp
    have step: "second_pass (store a) (store ?a1) (store b) (store ?b1)"
      using r Cons.prems(1) f k0 by (rule run_task_again)
    have h1: "http_calls ?a1 = http_calls ?b1" and q1: "requestsMade ?a1 = requestsMade ?b1"
      using Cons.prems(1,2) by (simp_all add: run_task_requests)
    have k1: "has_doc (store ?b1) c f v" if "has_doc (store (run_tasks env m ts ?a1)) c f v"
      for c f v
      using Cons.prems(4) [of c f v] that has_doc_kept [OF only_creates_run_task, of b c f v env t]
      unfolding ra by simp
    from Cons.IH [OF h1 q1 c1 k1] step show ?thesis
      unfolding ra rb by (rule second_pass_trans [rotated])
  qed
qed

lemma handler_with_started:
  "init_failure env = None \<Longrightarrow>
   snd (handler_with env m ts d) = run_tasks env m ts (started ts d)"
  by (simp add: handler_with_state started_def)

lemma started_fields [simp]:
  "store (started ts d) = d" "http_calls (started ts d) = []" "requestsMade (started ts d) = 0"
  by (simp_all add: started_def)

lemma handler_with_again:
  assumes "reliable env" "match_tasks_complete env m ts (started ts d)"
  shows "second_pass d (store (snd (handler_with env m ts d)))
    (store (snd (handler_with env m ts d)))
    (store (snd (handler_with env m ts (store (snd (handler_with env m ts d))))))"
proof (cases "init_failure env")
  case None
  let ?d1 = "store (run_tasks env m ts (started ts d))"
  have "second_pass (store (started ts d)) (store (run_tasks env m ts (started ts d)))
      (store (started ts ?d1)) (store (run_tasks env m ts (started ts ?d1)))"
    using assms(1) _ _ assms(2) by (rule run_tasks_again) simp_all
  then show ?thesis by (simp add: handler_with_started [OF None])
next
  case (Some msg)
  then show ?thesis by (simp add: handler_with_state)
qed

lemma try_body_failed_store:
  "isl (upstream env (length (http_calls s)) ep) \<Longrightarrow> store (snd (try_body env ep s)) = store s"
  by (cases "upstream env (length (http_calls s)) ep")
    (simp_all add: try_body_def and_then_def axios_get_def)

lemma stale_props:
  "reliable stale_env" "init_failure stale_env = None"
  "upstream stale_env n ''/competitions/PL'' = Inl ''Request failed with status code 404''"
  "upstream stale_env n ''/competitions/PL/standings'' = Inl ''Request failed with status code 404''"
  "upstream stale_env n ''/competitions/CL'' = Inl ''Request failed with status code 404''"
  "upstream stale_env n ''/competitions/CL/standings'' = Inl ''Request failed with status code 404''"
  "upstream stale_env n ''/competitions/EC'' = Inl ''Request failed with status code 404''"
  "upstream stale_env n ''/competitions/EC/standings'' = Inl ''Request failed with status code 404''"
  "upstream stale_env n ''/competitions/EC/matches?status=FINISHED'' = Inl ''Request failed with status code 404''"
  "upstream stale_env n ''/competitions/PL/matches?status=FINISHED'' =
     Inr (JObj [(''matches'', JArr [incomplete_entry, match_entry 2 ''FINISHED''])])"
  "upstream stale_env n ''/competitions/CL/matches?status=FINISHED'' =
     Inr (JObj [(''matches'', JArr [match_entry 1 ''FINISHED''])])"
  by (simp_all add: stale_env_def stale_upstream_def reliable_def)

lemma incomplete_entry_props [simp]:
  "\<not> nullish incomplete_entry"
  "\<not> complete_match incomplete_entry"
  "lookup_prop incomplete_entry ''status'' = JStr ''FINISHED''"
  "lookup_prop incomplete_entry ''id'' = JNum 1"
  by (simp_all add: incomplete_entry_def complete_match_def)

lemma classify_tasks:
  "classify ''/competitions/CL/matches?status=FINISHED'' = Some Match"
  "classify ''/competitions/EC/matches?status=FINISHED'' = Some Match"
  "compCode ''/competitions/CL/matches?status=FINISHED'' = JStr ''CL''"
  "compCode ''/competitions/EC/matches?status=FINISHED'' = JStr ''EC''"
  by (simp_all add: classify_def startsWith_def endsWith_def includes_str_def
      suffix_to_prefix sublist_Cons_right compCode_def)


text \<open>
  Claim C2, as amended.  Run the nine tasks on the empty store and run them again on the
  resulting store, with the same upstream responses and a store that does not fail.  If in
  the first run every task of Match kind whose fetch returned a response completed without
  error, the second run leaves the competitions and the matches exactly as the first run
  left them, and appends to the standings documents with the same data as those of the
  first run, in the same order: twice as many standings.
\<close>

theorem second_run_adds_only_standings:
  assumes "reliable env"
    and "match_tasks_complete env maxRequests_default tasks (started tasks empty_database)"
  shows "docs (store (snd (handler env (store (snd (handler env empty_database))))))
        COMPETITIONS_COLLECTION_ID
      = docs (store (snd (handler env empty_database))) COMPETITIONS_COLLECTION_ID
    \<and> docs (store (snd (handler env (store (snd (handler env empty_database))))))
        MATCHES_COLLECTION_ID
      = docs (store (snd (handler env empty_database))) MATCHES_COLLECTION_ID
    \<and> length (docs (store (snd (handler env (store (snd (handler env empty_database))))))
        STANDINGS_COLLECTION_ID)
      = 2 * length (docs (store (snd (handler env empty_database))) STANDINGS_COLLECTION_ID)
    \<and> map doc_data (docs (store (snd (handler env (store (snd (handler env
        empty_database)))))) STANDINGS_COLLECTION_ID)
      = map doc_data (docs (store (snd (handler env empty_database))) STANDINGS_COLLECTION_ID)
        @ map doc_data (docs (store (snd (handler env empty_database)))
            STANDINGS_COLLECTION_ID)"
proof -
  let ?d1 = "store (snd (handler env empty_database))"
  let ?d2 = "store (snd (handler env ?d1))"
  have "second_pass empty_database ?d1 ?d1 ?d2"
    using handler_with_again [OF assms] by (simp add: handler_def)
  then obtain n1 n2 where
    c: "docs ?d2 COMPETITIONS_COLLECTION_ID = docs ?d1 COMPETITIONS_COLLECTION_ID"
    and m: "docs ?d2 MATCHES_COLLECTION_ID = docs ?d1 MATCHES_COLLECTION_ID"
    and 1: "docs ?d1 STANDINGS_COLLECTION_ID = docs empty_database STANDINGS_COLLECTION_ID @ n1"
    and 2: "docs ?d2 STANDINGS_COLLECTION_ID = docs ?d1 STANDINGS_COLLECTION_ID @ n2"
    and e: "map doc_data n1 = map doc_data n2"
    unfolding second_pass_def by blast
  from 1 have n1: "docs ?d1 STANDINGS_COLLECTION_ID = n1" by (simp add: empty_database_def)
  from e have "length n1 = length n2" by (rule map_eq_imp_length_eq)
  with c m 2 e show ?thesis unfolding n1 by simp
qed

text \<open>
  The PL matches begin with a finished entry that has no teams, followed by match 2; the CL
  matches hold match 1.  The first run aborts the PL task at its first entry and stores
  match 1 from the CL task; the second run finds match 1, skips the entry, and stores
  match 2.
\<close>

theorem second_run_adds_match_counterexample:
  "reliable stale_env
   \<and> map (\<lambda>d. map_of (doc_data d) ''match_id'')
       (docs (store (snd (handler stale_env empty_database))) MATCHES_COLLECTION_ID)
     = [Some (JNum 1)]
   \<and> map (\<lambda>d. map_of (doc_data d) ''match_id'')
       (docs (store (snd (handler stale_env (store (snd (handler stale_env empty_database))))))
         MATCHES_COLLECTION_ID)
     = [Some (JNum 1), Some (JNum 2)]"
proof -
  have run: "map (\<lambda>d. map_of (doc_data d) ''match_id'')
      (docs (store (snd (handler stale_env d0))) MATCHES_COLLECTION_ID) =
    map (\<lambda>d. map_of (doc_data d) ''match_id'') (docs d0 MATCHES_COLLECTION_ID) @
      (if has_doc d0 MATCHES_COLLECTION_ID ''match_id'' (JNum 1)
       then (if has_doc d0 MATCHES_COLLECTION_ID ''match_id'' (JNum 2) then []
             else [Some (JNum 2)])
       else [Some (JNum 1)])" for d0
    by (simp add: handler_def handler_with_state(1) stale_props tasks_def maxRequests_default_def
      run_task_requests run_task_store try_body_failed_store
      try_body_fetched classify_examples classify_tasks process_match_list_sliced
      process_match_reliable and_then_def eval_def has_doc_def)
  have 1: "map (\<lambda>d. map_of (doc_data d) ''match_id'')
       (docs (store (snd (handler stale_env empty_database))) MATCHES_COLLECTION_ID)
     = [Some (JNum 1)]"
    unfolding run by (simp add: has_doc_def empty_database_def)
  then have "has_doc (store (snd (handler stale_env empty_database))) MATCHES_COLLECTION_ID
      ''match_id'' (JNum 1)"
    "\<not> has_doc (store (snd (handler stale_env empty_database))) MATCHES_COLLECTION_ID
      ''match_id'' (JNum 2)"
    by (auto simp add: has_doc_def map_eq_Cons_conv)
  then have 2: "map (\<lambda>d. map_of (doc_data d) ''match_id'')
       (docs (store (snd (handler stale_env (store (snd (handler stale_env empty_database))))))
         MATCHES_COLLECTION_ID)
     = [Some (JNum 1), Some (JNum 2)]"
    unfolding run [of "store (snd (handler stale_env empty_database))"] using 1 by simp
  from stale_props(1) 1 2 show ?thesis by simp
qed


lemma try_body_matches_complete:
  assumes "reliable env"
    and "classify ep = Some Match"
    and "upstream env (length (http_calls s)) ep = Inr data"
    and "\<not> nullish data"
    and "lookup_prop data ''matches'' = JArr ms"
    and "\<forall>m\<in>set (take 10 ms). processable m"
  shows "fst (try_body env ep s) = Inr ()"
proof -
  from assms(4) have "data \<noteq> JUndefined" by auto
  with assms(2,3) show ?thesis
    by (simp add: try_body_fetched process_match_list_sliced [OF assms(4,5)]
        process_matches_completes [OF assms(1,6)])
qed

lemma match_tasks_complete_sample:
  "match_tasks_complete sample_env m ts s"
proof (induction ts arbitrary: s)
  case Nil
  show ?case by simp
next
  case (Cons t ts)
  let ?ms = "[match_entry 1 ''FINISHED'', match_entry 2 ''SCHEDULED'',
              match_entry 3 ''FINISHED'', match_entry 4 ''SCHEDULED'',
              match_entry 5 ''SCHEDULED'', match_entry 6 ''SCHEDULED'',
              match_entry 7 ''SCHEDULED'', match_entry 8 ''SCHEDULED'',
              match_entry 9 ''SCHEDULED'', match_entry 10 ''SCHEDULED'',
              match_entry 11 ''SCHEDULED'']"
  let ?s = "context_log (Debug_processing_task (endpoint t)) s"
  have r: "reliable sample_env" by (simp add: reliable_def sample_env_def)
  have "fst (try_body sample_env (endpoint t) ?s) = Inr ()"
    if k: "classify (endpoint t) = Some Match"
      and u: "\<not> isl (upstream sample_env (length (http_calls s)) (endpoint t))"
  proof -
    from k u have e: "endpoint t = ''/competitions/PL/matches?status=FINISHED''"
      by (auto simp add: sample_env_def sample_upstream_def classify_examples
          split: if_splits)
    have u': "upstream sample_env (length (http_calls ?s)) (endpoint t)
        = Inr (JObj [(''matches'', JArr ?ms)])"
      unfolding e by (simp add: sample_env_def sample_upstream_def)
    have n: "\<not> nullish (JObj [(''matches'', JArr ?ms)])" by simp
    have a: "lookup_prop (JObj [(''matches'', JArr ?ms)]) ''matches'' = JArr ?ms" by simp
    have w: "\<forall>m\<in>set (take 10 ?ms). processable m"
      by simp
    from r k u' n a w show ?thesis by (rule try_body_matches_complete)
  qed
  with Cons.IH show ?case by simp
qed

lemma sample_props:
  "reliable sample_env" "init_failure sample_env = None"
  "upstream sample_env n ''/competitions/PL'' =
      Inr (JObj [(''name'', JStr ''Premier League''),
        (''area'', JObj [(''name'', JStr ''England'')])])"
  "upstream sample_env n ''/competitions/PL/standings'' =
      Inr (JObj [(''standings'', JArr [JObj [(''table'',
        JArr (map table_row [1, 2, 3, 4, 5, 6, 7, 8, 9, 10, 11, 12]))]])])"
  "upstream sample_env n ''/competitions/PL/matches?status=FINISHED'' =
      Inr (JObj [(''matches'', JArr
             [match_entry 1 ''FINISHED'', match_entry 2 ''SCHEDULED'',
              match_entry 3 ''FINISHED'', match_entry 4 ''SCHEDULED'',
              match_entry 5 ''SCHEDULED'', match_entry 6 ''SCHEDULED'',
              match_entry 7 ''SCHEDULED'', match_entry 8 ''SCHEDULED'',
              match_entry 9 ''SCHEDULED'', match_entry 10 ''SCHEDULED'',
              match_entry 11 ''SCHEDULED''])])"
  "isl (upstream sample_env n ''/competitions/CL'')"
  "isl (upstream sample_env n ''/competitions/CL/standings'')"
  "isl (upstream sample_env n ''/competitions/CL/matches?status=FINISHED'')"
  "isl (upstream sample_env n ''/competitions/EC'')"
  "isl (upstream sample_env n ''/competitions/EC/standings'')"
  "isl (upstream sample_env n ''/competitions/EC/matches?status=FINISHED'')"
  by (simp_all add: sample_env_def sample_upstream_def reliable_def)

lemma has_doc_simps [simp]:
  "has_doc (d\<lparr>next_id := n\<rparr>) c f v = has_doc d c f v"
  "has_doc \<lparr>docs = (docs d)(c := docs d c @ [x]), next_id = n\<rparr> c' f v =
     (has_doc d c' f v \<or> c' = c \<and> map_of (doc_data x) f = Some v)"
  by (auto simp add: has_doc_def)

text \<open>The three PL tasks on the sample responses, from any state.\<close>

lemma sample_competition_task:
  "docs (store (run_task sample_env \<lparr>endpoint = ''/competitions/PL'', priority = p\<rparr> s)) =
     (if has_doc (store s) COMPETITIONS_COLLECTION_ID ''code'' (JStr ''PL'') then docs (store s)
      else (docs (store s))(COMPETITIONS_COLLECTION_ID :=
        docs (store s) COMPETITIONS_COLLECTION_ID @
          [\<lparr>doc_id = next_id (store s),
            doc_data = [(''code'', JStr ''PL''), (''name'', JStr ''Premier League''),
                        (''area_name'', JStr ''England'')],
            doc_perms = Some [Permission_read Role_any]\<rparr>]))"
  by (simp add: run_task_store try_body_fetched sample_props classify_examples
      process_competition_reliable)

lemma sample_standings_task:
  "\<exists>new. length new = 10 \<and>
     docs (store (run_task sample_env
       \<lparr>endpoint = ''/competitions/PL/standings'', priority = p\<rparr> s)) =
     (docs (store s))(STANDINGS_COLLECTION_ID := docs (store s) STANDINGS_COLLECTION_ID @ new)"
proof -
  let ?rows = "[table_row 1, table_row 2, table_row 3, table_row 4, table_row 5,
    table_row 6, table_row 7, table_row 8, table_row 9, table_row 10, table_row 11,
    table_row 12]"
  let ?table = "JObj [(''standings'', JArr [JObj [(''table'', JArr ?rows)]])]"
  let ?s = "(context_log (Debug_processing_task ''/competitions/PL/standings'') s)
     \<lparr>http_calls := http_calls s @ [(''/competitions/PL/standings'', True)],
       requestsMade := Suc (requestsMade s),
       sink := sink s @ [Debug_processing_task ''/competitions/PL/standings'',
         Debug_api_response ''/competitions/PL/standings'' ?table]\<rparr>"
  let ?new = "map (\<lambda>(i, r). \<lparr>doc_id = i,
       doc_data = standing_body (compCode ''/competitions/PL/standings'') r, doc_perms = None\<rparr>)
     (zip [next_id (store ?s)..<next_id (store ?s) + min 10 (length ?rows)] (take 10 ?rows))"
  have t: "opt_prop (opt_index0 (lookup_prop ?table ''standings'')) ''table'' = JArr ?rows"
    "\<forall>r\<in>set (take 10 ?rows). complete_standing r \<and> loggable_standing r"
    "\<not> nullish ?table"
    by (simp_all add: opt_prop_def complete_standing_def loggable_standing_def table_row_def)
  have "docs (store (snd (process_standings sample_env ''/competitions/PL/standings'' ?table ?s)))
      = (docs (store ?s))(STANDINGS_COLLECTION_ID := docs (store ?s) STANDINGS_COLLECTION_ID @ ?new)"
    by (rule process_standings_complete(2) [OF sample_props(1) t(3) t(1) t(2)])
  moreover have "run_task sample_env \<lparr>endpoint = ''/competitions/PL/standings'', priority = p\<rparr> s'
      = run_task sample_env \<lparr>endpoint = ''/competitions/PL/standings'', priority = p\<rparr> s'" for s'
    by simp
  moreover have "store (run_task sample_env
        \<lparr>endpoint = ''/competitions/PL/standings'', priority = p\<rparr> s) =
      store (snd (process_standings sample_env ''/competitions/PL/standings'' ?table ?s))"
    by (simp add: run_task_store try_body_fetched sample_props classify_examples)
  moreover have "length ?new = 10" by simp
  moreover have "store ?s = store s" by simp
  ultimately show ?thesis by metis
qed

lemma sample_matches_task:
  assumes "\<not> has_doc (store s) MATCHES_COLLECTION_ID ''match_id'' (JNum 1)"
    and "\<not> has_doc (store s) MATCHES_COLLECTION_ID ''match_id'' (JNum 3)"
  shows "\<exists>new. length new = 2 \<and>
     docs (store (run_task sample_env
       \<lparr>endpoint = ''/competitions/PL/matches?status=FINISHED'', priority = p\<rparr> s)) =
     (docs (store s))(MATCHES_COLLECTION_ID := docs (store s) MATCHES_COLLECTION_ID @ new)"
proof -
  let ?ep = "''/competitions/PL/matches?status=FINISHED''"
  let ?new = "[\<lparr>doc_id = next_id (store s),
        doc_data = match_body (next_id (store s)) (JStr ''PL'') (match_entry 1 ''FINISHED''),
        doc_perms = Some [Permission_read Role_any]\<rparr>,
      \<lparr>doc_id = Suc (next_id (store s)),
        doc_data = match_body (Suc (next_id (store s))) (JStr ''PL'') (match_entry 3 ''FINISHED''),
        doc_perms = Some [Permission_read Role_any]\<rparr>]"
  have "docs (store (run_task sample_env \<lparr>endpoint = ?ep, priority = p\<rparr> s)) =
     (docs (store s))(MATCHES_COLLECTION_ID := docs (store s) MATCHES_COLLECTION_ID @ ?new)"
    using assms
    by (simp add: run_task_store try_body_fetched sample_props classify_examples
        process_match_list_sliced process_match_reliable and_then_def eval_def)
  moreover have "length ?new = 2" by simp
  ultimately show ?thesis by blast
qed


lemma failed_task_store:
  "isl (upstream env (length (http_calls s)) (endpoint t)) \<Longrightarrow>
   store (run_task env t s) = store s"
  by (simp add: run_task_store try_body_failed_store)

lemma sample_first_run:
  "length (docs (store (snd (handler sample_env empty_database)))
        COMPETITIONS_COLLECTION_ID) = 1
    \<and> length (docs (store (snd (handler sample_env empty_database)))
        STANDINGS_COLLECTION_ID) = 10
    \<and> length (docs (store (snd (handler sample_env empty_database)))
        MATCHES_COLLECTION_ID) = 2"
proof -
  let ?t1 = "\<lparr>endpoint = ''/competitions/PL'', priority = 1\<rparr>"
  let ?t2 = "\<lparr>endpoint = ''/competitions/PL/standings'', priority = 2\<rparr>"
  let ?t3 = "\<lparr>endpoint = ''/competitions/PL/matches?status=FINISHED'', priority = 3\<rparr>"
  let ?s0 = "started tasks empty_database"
  let ?s1 = "run_task sample_env ?t1 ?s0"
  let ?s2 = "run_task sample_env ?t2 ?s1"
  let ?s3 = "run_task sample_env ?t3 ?s2"
  have "requestsMade ?s0 + length tasks \<le> maxRequests_default"
    by (simp add: tasks_def maxRequests_default_def)
  then have "snd (handler sample_env empty_database) = fold (run_task sample_env) tasks ?s0"
    by (simp add: handler_def handler_with_started sample_props run_tasks_fold)
  then have "store (snd (handler sample_env empty_database)) = store ?s3"
    by (simp add: tasks_def failed_task_store sample_props)
  moreover have 1: "docs (store ?s1) = (docs empty_database)(COMPETITIONS_COLLECTION_ID :=
      [\<lparr>doc_id = 0,
        doc_data = [(''code'', JStr ''PL''), (''name'', JStr ''Premier League''),
                    (''area_name'', JStr ''England'')],
        doc_perms = Some [Permission_read Role_any]\<rparr>])"
    by (simp add: sample_competition_task has_doc_def empty_database_def)
  moreover obtain new2 where 2: "length new2 = 10"
    "docs (store ?s2) =
      (docs (store ?s1))(STANDINGS_COLLECTION_ID := docs (store ?s1) STANDINGS_COLLECTION_ID @ new2)"
    using sample_standings_task [of 2 ?s1] by blast
  moreover have "\<not> has_doc (store ?s2) MATCHES_COLLECTION_ID ''match_id'' v" for v
    unfolding has_doc_def 2 1 by (simp add: empty_database_def)
  then obtain new3 where 3: "length new3 = 2"
    "docs (store ?s3) =
      (docs (store ?s2))(MATCHES_COLLECTION_ID := docs (store ?s2) MATCHES_COLLECTION_ID @ new3)"
    using sample_matches_task [of ?s2 3] by blast
  ultimately show ?thesis by (simp add: empty_database_def)
qed


text \<open>
  The sample responses: one competition, ten standings and two matches after the first
  run; the same competition and matches, and twenty standings, after the second.
\<close>

theorem second_run_adds_only_standings_witness:
  "reliable sample_env
   \<and> match_tasks_complete sample_env maxRequests_default tasks (started tasks empty_database)
   \<and> length (docs (store (snd (handler sample_env empty_database)))
        COMPETITIONS_COLLECTION_ID) = 1
   \<and> length (docs (store (snd (handler sample_env empty_database)))
        STANDINGS_COLLECTION_ID) = 10
   \<and> length (docs (store (snd (handler sample_env empty_database)))
        MATCHES_COLLECTION_ID) = 2
   \<and> length (docs (store (snd (handler sample_env
        (store (snd (handler sample_env empty_database)))))) COMPETITIONS_COLLECTION_ID) = 1
   \<and> length (docs (store (snd (handler sample_env
        (store (snd (handler sample_env empty_database)))))) STANDINGS_COLLECTION_ID) = 20
   \<and> length (docs (store (snd (handler sample_env
        (store (snd (handler sample_env empty_database)))))) MATCHES_COLLECTION_ID) = 2"
proof -
  have r: "reliable sample_env" by (rule sample_props(1))
  have c: "match_tasks_complete sample_env maxRequests_default tasks
      (started tasks empty_database)"
    by (rule match_tasks_complete_sample)
  from second_run_adds_only_standings [OF r c] sample_first_run r c show ?thesis
    by simp
qed

end
